theory Spec2Isabelle
  imports Main "HOL-Library.Word"
begin

unbundle bit_operations_syntax

section \<open>Bytes, readers and errors\<close>

text \<open>
  A Go \<open>byte\<close> is an 8-bit word, a \<open>[]byte\<close> and a \<open>string\<close> are lists of bytes.
  A \<open>bytes.Reader\<close> is modelled by the bytes it has not yet delivered; every reading
  function returns the remaining bytes with its result.  A writer is modelled by the bytes
  a call appends to it.
\<close>

type_synonym byte = "8 word"
type_synonym bytes = "byte list"
type_synonym reader = "byte list"

text \<open>\<open>errors.go\<close>: the kinds of the structured error.\<close>

datatype ErrorKind =
    ErrInvalidTypeID
  | ErrInvalidFieldID
  | ErrFieldOrder
  | ErrDuplicateMapKey
  | ErrInvalidUTF8
  | ErrLengthOverflow
  | ErrUnexpectedEOF
  | ErrTypeMismatch
  | ErrEnumLengthMismatch
  | ErrNotImplementedKind

text \<open>
  Every error value the codec can return: the structured \<open>*Error\<close> (kind and detail), the
  sentinel \<open>errInvalidTypeID\<close> of package \<open>internal\<close>, the ad-hoc \<open>errors.New\<close> values,
  and the two errors of package \<open>io\<close>.
\<close>

datatype error =
    Error ErrorKind string
  | errInvalidTypeID
  | errors_New string
  | io_EOF
  | io_ErrUnexpectedEOF

definition ErrNotImplemented :: error where
  "ErrNotImplemented = Error ErrNotImplementedKind ''not implemented''"

section \<open>Tagged-varint lengths (\<open>lengths.go\<close>)\<close>

definition MaxLen :: int where
  "MaxLen = 2 ^ 31 - 1"

definition SizeOfLen :: "int \<Rightarrow> int" where
  "SizeOfLen n = (if n < 0 \<or> n > MaxLen then - 1 else if n \<le> 0x7F then 1 else 4)"

text \<open>
  \<open>EncodeLen\<close> writes into a caller-supplied buffer and returns the count; the model
  returns the bytes written, so the count is their number.  \<open>byte(...)\<close> and \<open>uint32(n)\<close>
  truncate, which is \<open>word_of_int\<close>.
\<close>

definition EncodeLen :: "int \<Rightarrow> bytes" where
  "EncodeLen n =
     (if n \<le> 0x7F then [word_of_int (push_bit 1 n AND 0xFE)]
      else
        let u = (word_of_int n :: 32 word) in
        [ ucast (push_bit 1 (u AND 0x7F) OR 0x01),
          ucast (drop_bit 7 u AND 0xFF),
          ucast (drop_bit 15 u AND 0xFF),
          ucast (drop_bit 23 u AND 0xFF) ])"

definition DecodeLen :: "bytes \<Rightarrow> int \<times> int" where
  "DecodeLen src =
     (if length src = 0 then (- 1, 0)
      else
        let b0 = src ! 0 in
        if b0 AND 0x01 = 0 then (uint (drop_bit 1 b0), 1)
        else if length src < 4 then (- 1, 0)
        else
          let n = uint ((ucast (drop_bit 1 b0) :: 32 word)
                        OR push_bit 7 (ucast (src ! 1) :: 32 word)
                        OR push_bit 15 (ucast (src ! 2) :: 32 word)
                        OR push_bit 23 (ucast (src ! 3) :: 32 word)) in
          if n < 0 \<or> n > MaxLen then (- 1, 0) else (n, 4))"


section \<open>Byte streams (\<open>io.ReadFull\<close>, \<open>internal.ReadFull\<close>) and UTF-8\<close>

text \<open>
  \<open>io.ReadFull\<close> of the standard library on a \<open>bytes.Reader\<close>: \<open>n\<close> bytes, or \<open>io.EOF\<close> when
  nothing could be read, or \<open>io.ErrUnexpectedEOF\<close> after a partial read.
\<close>

definition io_ReadFull :: "reader \<Rightarrow> nat \<Rightarrow> error + (bytes \<times> reader)" where
  "io_ReadFull r n =
     (if n \<le> length r then Inr (take n r, drop n r)
      else if r = [] then Inl io_EOF
      else Inl io_ErrUnexpectedEOF)"

text \<open>
  The repository's own \<open>ReadFull\<close> loops on \<open>r.Read\<close>.  A \<open>bytes.Reader\<close> delivers
  everything it has in one \<open>Read\<close> and answers \<open>(0, io.EOF)\<close> at its end, so a short
  input always ends the loop with \<open>io.EOF\<close>; an empty buffer never enters the loop.
\<close>

definition ReadFull :: "reader \<Rightarrow> nat \<Rightarrow> error + (bytes \<times> reader)" where
  "ReadFull r n =
     (if n \<le> length r then Inr (take n r, drop n r) else Inl io_EOF)"

text \<open>
  \<open>utf8.Valid\<close> and \<open>utf8.ValidString\<close> of the standard library: the well-formed byte
  sequences of the Unicode standard.  \<open>utf8_first b\<close> gives, for a leading byte, the
  admissible range of the second byte and the number of continuation bytes (0: invalid).
\<close>

definition utf8_first :: "byte \<Rightarrow> byte \<times> byte \<times> nat" where
  "utf8_first b =
     (if 0xC2 \<le> b \<and> b \<le> 0xDF then (0x80, 0xBF, 1)
      else if b = 0xE0 then (0xA0, 0xBF, 2)
      else if 0xE1 \<le> b \<and> b \<le> 0xEC then (0x80, 0xBF, 2)
      else if b = 0xED then (0x80, 0x9F, 2)
      else if 0xEE \<le> b \<and> b \<le> 0xEF then (0x80, 0xBF, 2)
      else if b = 0xF0 then (0x90, 0xBF, 3)
      else if 0xF1 \<le> b \<and> b \<le> 0xF3 then (0x80, 0xBF, 3)
      else if b = 0xF4 then (0x80, 0x8F, 3)
      else (0, 0, 0))"

fun utf8_Valid :: "bytes \<Rightarrow> bool" where
  "utf8_Valid [] = True"
| "utf8_Valid (b # bs) =
     (if b < 0x80 then utf8_Valid bs
      else
        (case utf8_first b of (lo, hi, n) \<Rightarrow>
           n \<noteq> 0 \<and> n \<le> length bs \<and> lo \<le> hd bs \<and> hd bs \<le> hi
           \<and> list_all (\<lambda>c. 0x80 \<le> c \<and> c \<le> 0xBF) (take (n - 1) (tl bs))
           \<and> utf8_Valid (drop n bs)))"

section \<open>Primitive and composite TLV framing (package \<open>internal\<close>)\<close>

definition IsVarSize :: "byte \<Rightarrow> bool" where
  "IsVarSize t = (t = 0x0E \<or> t = 0x0F \<or> t = 0x10 \<or> t = 0x11 \<or> t = 0x12)"

definition FixedSize :: "byte \<Rightarrow> int \<times> bool" where
  "FixedSize t =
     (if t = 0x00 then (0, True)
      else if t = 0x01 then (1, True)
      else if t = 0x02 then (1, True)
      else if t = 0x03 then (2, True)
      else if t = 0x04 then (4, True)
      else if t = 0x05 then (8, True)
      else if t = 0x06 then (16, True)
      else if t = 0x07 then (1, True)
      else if t = 0x08 then (2, True)
      else if t = 0x09 then (4, True)
      else if t = 0x0A then (8, True)
      else if t = 0x0B then (16, True)
      else if t = 0x0C then (4, True)
      else if t = 0x0D then (8, True)
      else if t = 0x13 then (8, True)
      else (0, False))"

definition WriteType :: "byte \<Rightarrow> error + bytes" where
  "WriteType t = (if t AND 0x80 \<noteq> 0 then Inl errInvalidTypeID else Inr [t])"

definition ReadType :: "reader \<Rightarrow> error + (byte \<times> reader)" where
  "ReadType r =
     (case io_ReadFull r 1 of
        Inl e \<Rightarrow> Inl e
      | Inr (b, r1) \<Rightarrow>
          if (b ! 0) AND 0x80 \<noteq> 0 then Inl errInvalidTypeID else Inr (b ! 0, r1))"

definition WriteLen :: "int \<Rightarrow> error + bytes" where
  "WriteLen n =
     (if SizeOfLen n < 0 then Inl (errors_New ''length out of range'')
      else Inr (EncodeLen n))"

text \<open>\<open>ReadLen\<close> returns the length and the number of prefix bytes it used.\<close>

definition ReadLen :: "reader \<Rightarrow> error + ((int \<times> int) \<times> reader)" where
  "ReadLen r =
     (case io_ReadFull r 1 of
        Inl e \<Rightarrow> Inl e
      | Inr (b, r1) \<Rightarrow>
          if (b ! 0) AND 0x01 = 0 then Inr ((fst (DecodeLen b), 1), r1)
          else
            (case io_ReadFull r1 3 of
               Inl e \<Rightarrow> Inl e
             | Inr (b', r2) \<Rightarrow>
                 let n = fst (DecodeLen (b @ b')) in
                 if n < 0 then Inl (errors_New ''invalid length'')
                 else Inr ((n, 4), r2)))"

text \<open>\<open>binary.LittleEndian\<close>.\<close>

definition PutUint16 :: "16 word \<Rightarrow> bytes" where
  "PutUint16 v = [ucast v, ucast (drop_bit 8 v)]"

definition PutUint32 :: "32 word \<Rightarrow> bytes" where
  "PutUint32 v = [ucast v, ucast (drop_bit 8 v), ucast (drop_bit 16 v), ucast (drop_bit 24 v)]"

definition PutUint64 :: "64 word \<Rightarrow> bytes" where
  "PutUint64 v =
     [ucast v, ucast (drop_bit 8 v), ucast (drop_bit 16 v), ucast (drop_bit 24 v),
      ucast (drop_bit 32 v), ucast (drop_bit 40 v), ucast (drop_bit 48 v), ucast (drop_bit 56 v)]"

definition Uint32 :: "bytes \<Rightarrow> 32 word" where
  "Uint32 b =
     ucast (b ! 0) OR push_bit 8 (ucast (b ! 1)) OR push_bit 16 (ucast (b ! 2))
       OR push_bit 24 (ucast (b ! 3))"

text \<open>
  The fixed-size writers: the type byte, then the content.  \<open>WriteFixedTLV\<close> is the
  shape all of them share (\<open>WriteType\<close>, then one \<open>Write\<close>).
\<close>

definition WriteFixedTLV :: "byte \<Rightarrow> bytes \<Rightarrow> error + bytes" where
  "WriteFixedTLV t content =
     (case WriteType t of Inl e \<Rightarrow> Inl e | Inr tb \<Rightarrow> Inr (tb @ content))"

definition WriteBoolTLV :: "bool \<Rightarrow> error + bytes" where
  "WriteBoolTLV v = WriteFixedTLV 0x01 [if v then 0xFF else 0x00]"

definition WriteU8TLV :: "8 word \<Rightarrow> error + bytes" where
  "WriteU8TLV v = WriteFixedTLV 0x02 [v]"

definition WriteU16TLV :: "16 word \<Rightarrow> error + bytes" where
  "WriteU16TLV v = WriteFixedTLV 0x03 (PutUint16 v)"

definition WriteU32TLV :: "32 word \<Rightarrow> error + bytes" where
  "WriteU32TLV v = WriteFixedTLV 0x04 (PutUint32 v)"

definition WriteU64TLV :: "64 word \<Rightarrow> error + bytes" where
  "WriteU64TLV v = WriteFixedTLV 0x05 (PutUint64 v)"

definition WriteI8TLV :: "8 word \<Rightarrow> error + bytes" where
  "WriteI8TLV v = WriteFixedTLV 0x07 [v]"

definition WriteI16TLV :: "16 word \<Rightarrow> error + bytes" where
  "WriteI16TLV v = WriteFixedTLV 0x08 (PutUint16 v)"

definition WriteI32TLV :: "32 word \<Rightarrow> error + bytes" where
  "WriteI32TLV v = WriteFixedTLV 0x09 (PutUint32 v)"

definition WriteI64TLV :: "64 word \<Rightarrow> error + bytes" where
  "WriteI64TLV v = WriteFixedTLV 0x0A (PutUint64 v)"

text \<open>Floats travel as their IEEE-754 bit patterns (\<open>math.Float32bits\<close>).\<close>

text \<open>
  The encoder reads a \<open>float32\<close> field through \<open>rv.Float()\<close>, which widens it to
  \<open>float64\<close>, and narrows it again with \<open>float32(...)\<close>.  The two conversions keep
  every bit pattern except that of a signalling NaN, whose quiet bit they set.
\<close>

definition quietNaN32 :: "32 word \<Rightarrow> 32 word" where
  "quietNaN32 w =
     (if w AND 0x7F800000 = 0x7F800000 \<and> w AND 0x007FFFFF \<noteq> 0
      then w OR 0x00400000 else w)"

definition WriteF32TLV :: "32 word \<Rightarrow> error + bytes" where
  "WriteF32TLV bits = WriteFixedTLV 0x0C (PutUint32 bits)"

definition WriteF64TLV :: "64 word \<Rightarrow> error + bytes" where
  "WriteF64TLV bits = WriteFixedTLV 0x0D (PutUint64 bits)"

definition ReadBoolTLV :: "reader \<Rightarrow> error + (bool \<times> reader)" where
  "ReadBoolTLV r =
     (case ReadType r of
        Inl e \<Rightarrow> Inl e
      | Inr (t, r1) \<Rightarrow>
          if t \<noteq> 0x01 then Inl (errors_New ''unexpected type id for bool'')
          else
            (case io_ReadFull r1 1 of
               Inl e \<Rightarrow> Inl e
             | Inr (b, r2) \<Rightarrow>
                 if b ! 0 = 0x00 then Inr (False, r2)
                 else if b ! 0 = 0xFF then Inr (True, r2)
                 else Inl (errors_New ''invalid bool value'')))"

definition ReadU32TLV :: "reader \<Rightarrow> error + (32 word \<times> reader)" where
  "ReadU32TLV r =
     (case ReadType r of
        Inl e \<Rightarrow> Inl e
      | Inr (t, r1) \<Rightarrow>
          if t \<noteq> 0x04 then Inl (errors_New ''unexpected type id for u32'')
          else
            (case io_ReadFull r1 4 of
               Inl e \<Rightarrow> Inl e
             | Inr (buf, r2) \<Rightarrow> Inr (Uint32 buf, r2)))"

definition WriteStringTLV :: "bytes \<Rightarrow> error + bytes" where
  "WriteStringTLV s =
     (if \<not> utf8_Valid s then Inl (errors_New ''invalid utf-8'')
      else
        (case WriteType 0x0E of
           Inl e \<Rightarrow> Inl e
         | Inr tb \<Rightarrow>
             (case WriteLen (int (length s)) of
                Inl e \<Rightarrow> Inl e
              | Inr lb \<Rightarrow> if length s = 0 then Inr (tb @ lb) else Inr (tb @ lb @ s))))"

definition ReadStringTLV :: "reader \<Rightarrow> error + (bytes \<times> reader)" where
  "ReadStringTLV r =
     (case ReadType r of
        Inl e \<Rightarrow> Inl e
      | Inr (t, r1) \<Rightarrow>
          if t \<noteq> 0x0E then Inl (errors_New ''unexpected type id for string'')
          else
            (case ReadLen r1 of
               Inl e \<Rightarrow> Inl e
             | Inr ((n, used), r2) \<Rightarrow>
                 if n = 0 then Inr ([], r2)
                 else
                   (case ReadFull r2 (nat n) of
                      Inl e \<Rightarrow> Inl e
                    | Inr (buf, r3) \<Rightarrow>
                        if \<not> utf8_Valid buf then Inl (errors_New ''invalid utf-8'')
                        else Inr (buf, r3))))"

text \<open>
  The composite writers take a closure that fills a staging buffer.  The closure runs
  once on an empty buffer, so it is modelled by its outcome: an error, or the bytes it
  staged.
\<close>

definition WriteStructTLV :: "error + bytes \<Rightarrow> error + bytes" where
  "WriteStructTLV writeFields =
     (case writeFields of
        Inl e \<Rightarrow> Inl e
      | Inr buf \<Rightarrow>
          (case WriteType 0x11 of
             Inl e \<Rightarrow> Inl e
           | Inr tb \<Rightarrow>
               (case WriteLen (int (length buf)) of
                  Inl e \<Rightarrow> Inl e
                | Inr lb \<Rightarrow> Inr (tb @ lb @ buf))))"

definition WriteEnumTLV :: "byte \<Rightarrow> error + bytes \<Rightarrow> error + bytes" where
  "WriteEnumTLV variantID writeVariant =
     (if variantID AND 0x80 \<noteq> 0 then Inl errInvalidTypeID
      else
        (case writeVariant of
           Inl e \<Rightarrow> Inl e
         | Inr body \<Rightarrow>
             let buf = variantID # body in
             (case WriteType 0x12 of
                Inl e \<Rightarrow> Inl e
              | Inr tb \<Rightarrow>
                  (case WriteLen (int (length buf)) of
                     Inl e \<Rightarrow> Inl e
                   | Inr lb \<Rightarrow> Inr (tb @ lb @ buf)))))"

definition WriteMapTLV :: "byte \<Rightarrow> byte \<Rightarrow> error + bytes \<Rightarrow> error + bytes" where
  "WriteMapTLV keyType valueType writePairs =
     (if keyType AND 0x80 \<noteq> 0 \<or> valueType AND 0x80 \<noteq> 0 then Inl errInvalidTypeID
      else
        (case WriteType keyType of
           Inl e \<Rightarrow> Inl e
         | Inr kb \<Rightarrow>
             (case WriteType valueType of
                Inl e \<Rightarrow> Inl e
              | Inr vb \<Rightarrow>
                  (case writePairs of
                     Inl e \<Rightarrow> Inl e
                   | Inr pairs \<Rightarrow>
                       let buf = kb @ vb @ pairs in
                       (case WriteType 0x10 of
                          Inl e \<Rightarrow> Inl e
                        | Inr tb \<Rightarrow>
                            (case WriteLen (int (length buf)) of
                               Inl e \<Rightarrow> Inl e
                             | Inr lb \<Rightarrow> Inr (tb @ lb @ buf)))))))"

definition ReadMapTLV :: "reader \<Rightarrow> error + ((byte \<times> byte \<times> bytes) \<times> reader)" where
  "ReadMapTLV r =
     (case ReadType r of
        Inl e \<Rightarrow> Inl e
      | Inr (t, r1) \<Rightarrow>
          if t \<noteq> 0x10 then Inl (errors_New ''unexpected type id for map'')
          else
            (case ReadLen r1 of
               Inl e \<Rightarrow> Inl e
             | Inr ((n, used), r2) \<Rightarrow>
                 if n < 2 then Inl (errors_New ''map content too short'')
                 else
                   (case ReadFull r2 (nat n) of
                      Inl e \<Rightarrow> Inl e
                    | Inr (buf, r3) \<Rightarrow>
                        let kt = buf ! 0; vt = buf ! 1 in
                        if kt AND 0x80 \<noteq> 0 \<or> vt AND 0x80 \<noteq> 0 then Inl errInvalidTypeID
                        else Inr ((kt, vt, drop 2 buf), r3))))"


section \<open>Go values as the reflection layer sees them\<close>

text \<open>
  A \<open>reflect.Value\<close> is a type together with a value of that type.  The types are the
  kinds the encoder's \<open>switch\<close> names, pointers, and structs whose fields carry a
  \<open>relish\<close> struct tag.  Signed integers are kept as their two's-complement words and
  floats as their bit patterns; a pointer is \<open>nil\<close> or holds its pointee.
\<close>

text \<open>
  The \<open>relish:"<id>[,optional][,omitempty]"\<close> struct tag, already split at its commas:
  \<open>Tag n optional omitempty\<close> carries the number \<open>strconv.ParseInt\<close> reads from the
  first part; \<open>NoTag\<close> is a tag that is missing, \<open>"-"\<close>, or has no number there.
\<close>

datatype rtag = NoTag | Tag int bool bool

datatype gotype =
    TBool | TUint8 | TUint16 | TUint32 | TUint64
  | TInt8 | TInt16 | TInt32 | TInt64
  | TFloat32 | TFloat64
  | TString
  | TPtr gotype
  | TStruct "(rtag \<times> gotype) list"

datatype goval =
    VBool bool
  | VUint8 "8 word" | VUint16 "16 word" | VUint32 "32 word" | VUint64 "64 word"
  | VInt8 "8 word" | VInt16 "16 word" | VInt32 "32 word" | VInt64 "64 word"
  | VFloat32 "32 word" | VFloat64 "64 word"
  | VString bytes
  | VPtr "goval option"
  | VStruct "goval list"

text \<open>\<open>ParseRelishTag\<close> returns \<open>(id, optional, omitempty, ok)\<close>; \<open>None\<close> is \<open>ok = false\<close>.\<close>

fun ParseRelishTag :: "rtag \<Rightarrow> (int \<times> bool \<times> bool) option" where
  "ParseRelishTag NoTag = None"
| "ParseRelishTag (Tag id64 optional omitempty) =
     (if id64 < 0 \<or> id64 \<ge> 0x80 then None else Some (id64, optional, omitempty))"

text \<open>A measure of types for the recursions that descend into struct fields.\<close>

fun tsize :: "gotype \<Rightarrow> nat" where
  "tsize (TPtr t) = Suc (tsize t)"
| "tsize (TStruct decls) = Suc (sum_list (map (\<lambda>(tag, t). Suc (tsize t)) decls))"
| "tsize _ = 0"

text \<open>\<open>reflect.Zero\<close>.\<close>

fun zero :: "gotype \<Rightarrow> goval" where
  "zero TBool = VBool False"
| "zero TUint8 = VUint8 0"
| "zero TUint16 = VUint16 0"
| "zero TUint32 = VUint32 0"
| "zero TUint64 = VUint64 0"
| "zero TInt8 = VInt8 0"
| "zero TInt16 = VInt16 0"
| "zero TInt32 = VInt32 0"
| "zero TInt64 = VInt64 0"
| "zero TFloat32 = VFloat32 0"
| "zero TFloat64 = VFloat64 0"
| "zero TString = VString []"
| "zero (TPtr t) = VPtr None"
| "zero (TStruct decls) = VStruct (map (\<lambda>(tag, t). zero t) decls)"

definition isPointer :: "gotype \<Rightarrow> bool" where
  "isPointer t = (case t of TPtr _ \<Rightarrow> True | _ \<Rightarrow> False)"

definition IsNil :: "goval \<Rightarrow> bool" where
  "IsNil v = (v = VPtr None)"

section \<open>The encoder (\<open>Encoder.encodeValue\<close>, \<open>Encoder.encodeStruct\<close>)\<close>

text \<open>
  \<open>isZeroValue\<close>: a pointer is zero when it is nil; everything else is compared with
  \<open>reflect.DeepEqual\<close> against the zero of its type.  \<open>DeepEqual\<close> compares floats with
  \<open>==\<close> (so \<open>-0.0\<close> is zero), pointers inside a struct by nil-ness first, structs field by
  field, and the rest structurally.
\<close>

fun isZeroValue :: "gotype \<Rightarrow> goval \<Rightarrow> bool" where
  "isZeroValue (TPtr t) v = IsNil v"
| "isZeroValue TFloat32 v = (case v of VFloat32 w \<Rightarrow> w AND 0x7FFFFFFF = 0 | _ \<Rightarrow> False)"
| "isZeroValue TFloat64 v = (case v of VFloat64 w \<Rightarrow> w AND 0x7FFFFFFFFFFFFFFF = 0 | _ \<Rightarrow> False)"
| "isZeroValue (TStruct decls) v =
     (case v of
        VStruct vs \<Rightarrow> list_all2 (\<lambda>(tag, t) x. isZeroValue t x) decls vs
      | _ \<Rightarrow> False)"
| "isZeroValue t v = (v = zero t)"

text \<open>
  The pointer loop at the head of \<open>encodeValue\<close>: follow pointers; a nil pointer is
  replaced by the zero of its element type and ends the loop at once.
\<close>

fun deref :: "gotype \<Rightarrow> goval \<Rightarrow> gotype \<times> goval" where
  "deref (TPtr t) (VPtr None) = (t, zero t)"
| "deref (TPtr t) (VPtr (Some v)) = deref t v"
| "deref t v = (t, v)"

record fieldInfo =
  fid :: int
  optional :: bool
  omitempty :: bool
  ftype :: gotype
  fvalue :: goval

text \<open>
  The first loop of \<open>encodeStruct\<close>: the tagged fields in declaration order.  Its two
  counters are the numbers of collected fields that are optional, and that are optional
  and hold a non-nil pointer.
\<close>

fun collectFields :: "(rtag \<times> gotype) list \<Rightarrow> goval list \<Rightarrow> fieldInfo list" where
  "collectFields ((tag, t) # decls) (v # vs) =
     (case ParseRelishTag tag of
        None \<Rightarrow> collectFields decls vs
      | Some (i, opt, omit) \<Rightarrow>
          \<lparr>fid = i, optional = opt, omitempty = omit, ftype = t, fvalue = v\<rparr>
            # collectFields decls vs)"
| "collectFields _ _ = []"

definition isPresent :: "fieldInfo \<Rightarrow> bool" where
  "isPresent fi = (isPointer (ftype fi) \<and> \<not> IsNil (fvalue fi))"

definition optCount :: "fieldInfo list \<Rightarrow> nat" where
  "optCount flds = length (filter optional flds)"

definition presentOpt :: "fieldInfo list \<Rightarrow> nat" where
  "presentOpt flds = length (filter (\<lambda>fi. optional fi \<and> isPresent fi) flds)"

definition fsize :: "fieldInfo list \<Rightarrow> nat" where
  "fsize flds = sum_list (map (\<lambda>fi. Suc (tsize (ftype fi))) flds)"

lemma deref_tsize: "tsize (fst (deref t v)) \<le> tsize t"
  by (induction t v rule: deref.induct) auto

lemma fsize_collectFields:
  "fsize (collectFields decls vs) \<le> sum_list (map (\<lambda>(tag, t). Suc (tsize t)) decls)"
  by (induction decls vs rule: collectFields.induct)
     (auto simp: fsize_def split: option.splits)

lemma fsize_insort: "fsize (insort_key k x xs) = Suc (tsize (ftype x)) + fsize xs"
  by (induction xs) (auto simp: fsize_def)

lemma fsize_sort: "fsize (sort_key k xs) = fsize xs"
  by (induction xs) (auto simp: fsize_insort, simp add: fsize_def)

lemma fsize_member: "fi \<in> set flds \<Longrightarrow> tsize (ftype fi) < fsize flds"
  by (induction flds) (auto simp: fsize_def)

text \<open>
  \<open>sort.Slice\<close> by field ID is modelled by insertion sort (\<open>sort_key\<close>), which is what
  Go runs on slices of at most twelve elements; with pairwise distinct IDs every sorting
  algorithm gives the same result.  \<open>sort.Slice\<close> is not stable: for more than twelve
  tagged fields of which some share an ID, the order Go leaves equal IDs in is not
  specified and need not be the one \<open>sort_key\<close> gives.  Every statement below about the
  order of fields either assumes pairwise distinct IDs or is about a slice of two
  fields.
\<close>

function encodeValue :: "gotype \<Rightarrow> goval \<Rightarrow> error + bytes"
  and encodeStruct :: "(rtag \<times> gotype) list \<Rightarrow> goval list \<Rightarrow> error + bytes"
  and encodeFields :: "fieldInfo list \<Rightarrow> error + bytes"
where
  "encodeValue t v =
     (case deref t v of (t', v') \<Rightarrow>
        (case v' of
           VBool b \<Rightarrow> WriteBoolTLV b
         | VUint8 w \<Rightarrow> WriteU8TLV w
         | VUint16 w \<Rightarrow> WriteU16TLV w
         | VUint32 w \<Rightarrow> WriteU32TLV w
         | VUint64 w \<Rightarrow> WriteU64TLV w
         | VInt8 w \<Rightarrow> WriteI8TLV w
         | VInt16 w \<Rightarrow> WriteI16TLV w
         | VInt32 w \<Rightarrow> WriteI32TLV w
         | VInt64 w \<Rightarrow> WriteI64TLV w
         | VFloat32 w \<Rightarrow> WriteF32TLV (quietNaN32 w)
         | VFloat64 w \<Rightarrow> WriteF64TLV w
         | VString s \<Rightarrow> WriteStringTLV s
         | VStruct vs \<Rightarrow>
             (case t' of
                TStruct decls \<Rightarrow> encodeStruct decls vs
              | _ \<Rightarrow> Inl ErrNotImplemented)
         | VPtr p \<Rightarrow> Inl ErrNotImplemented))"
| "encodeStruct decls vs =
     (let flds = collectFields decls vs in
      if length flds > 0 \<and> optCount flds = length flds \<and> presentOpt flds = 1 then
        (case find isPresent flds of
           Some fi \<Rightarrow>
             WriteEnumTLV (word_of_int (fid fi)) (encodeValue (ftype fi) (fvalue fi))
         | None \<Rightarrow> WriteStructTLV (encodeFields (sort_key fid flds)))
      else WriteStructTLV (encodeFields (sort_key fid flds)))"
| "encodeFields [] = Inr []"
| "encodeFields (fi # rest) =
     (if optional fi \<and> isPointer (ftype fi) \<and> IsNil (fvalue fi) then encodeFields rest
      else if omitempty fi \<and> isZeroValue (ftype fi) (fvalue fi) then encodeFields rest
      else
        (case WriteType (word_of_int (fid fi)) of
           Inl e \<Rightarrow> Inl e
         | Inr ib \<Rightarrow>
             (case encodeValue (ftype fi) (fvalue fi) of
                Inl e \<Rightarrow> Inl e
              | Inr vb \<Rightarrow>
                  (case encodeFields rest of
                     Inl e \<Rightarrow> Inl e
                   | Inr rb \<Rightarrow> Inr (ib @ vb @ rb)))))"
  by pat_completeness auto

termination
  apply (relation "measure (\<lambda>x. case x of
          Inl (t, v) \<Rightarrow> 2 * tsize t + 2
        | Inr (Inl (decls, vs)) \<Rightarrow> 2 * tsize (TStruct decls) + 1
        | Inr (Inr flds) \<Rightarrow> 2 * fsize flds + 1)")
         apply (simp_all add: fsize_sort)
  subgoal for t v t' v' vs decls
    using deref_tsize [of t v] by (cases "deref t v") simp
  subgoal for decls vs
    using fsize_collectFields [of decls vs] by simp
  subgoal for decls vs flds fi
    using fsize_collectFields [of decls vs] fsize_member [of fi "collectFields decls vs"]
    by (auto simp: find_Some_iff)
  subgoal for decls vs
    using fsize_collectFields [of decls vs] by simp
  subgoal by (simp add: fsize_def)
  subgoal by (simp add: fsize_def)
  subgoal by (simp add: fsize_def)
  subgoal by (simp add: fsize_def)
  done


definition Marshal :: "gotype \<Rightarrow> goval \<Rightarrow> error + bytes" where
  "Marshal t v = encodeValue t v"

section \<open>The decoder (\<open>decoder.go\<close>)\<close>

text \<open>
  \<open>readTLVBytes\<close> reads one TLV and returns its bytes.  For a type that \<open>FixedSize\<close>
  does not know it reads a length prefix; the header it returns is rebuilt from the
  decoded length: \<open>EncodeLen\<close> into a zeroed four-byte array, cut to the number of prefix
  bytes that were read.
\<close>

definition readTLVBytes :: "reader \<Rightarrow> error + (bytes \<times> reader)" where
  "readTLVBytes r =
     (case ReadType r of
        Inl e \<Rightarrow> Inl e
      | Inr (t, r1) \<Rightarrow>
          (case FixedSize t of (n, ok) \<Rightarrow>
             if ok then
               (if n = 0 then Inr ([t], r1)
                else
                  (case ReadFull r1 (nat n) of
                     Inl e \<Rightarrow> Inl e
                   | Inr (c, r2) \<Rightarrow> Inr (t # c, r2)))
             else
               (case ReadLen r1 of
                  Inl e \<Rightarrow> Inl e
                | Inr ((n, used), r2) \<Rightarrow>
                    let tmp = EncodeLen n @ replicate (4 - length (EncodeLen n)) 0;
                        hdr = t # take (nat used) tmp
                    in
                      if n > 0 then
                        (case ReadFull r2 (nat n) of
                           Inl e \<Rightarrow> Inl e
                         | Inr (c, r3) \<Rightarrow> Inr (hdr @ c, r3))
                      else Inr (hdr, r2))))"

text \<open>
  The \<open>idToIndex\<close> map of \<open>decodeStructInto\<close>, filled in declaration order, so a later
  field with the same ID replaces an earlier one.
\<close>

fun idToIndexFrom ::
  "nat \<Rightarrow> (rtag \<times> gotype) list \<Rightarrow> (int \<rightharpoonup> nat) \<Rightarrow> (int \<rightharpoonup> nat)" where
  "idToIndexFrom i [] m = m"
| "idToIndexFrom i ((tag, t) # decls) m =
     idToIndexFrom (Suc i) decls
       (case ParseRelishTag tag of
          None \<Rightarrow> m
        | Some (k, opt, omit) \<Rightarrow> m(k \<mapsto> i))"

definition idToIndex :: "(rtag \<times> gotype) list \<Rightarrow> (int \<rightharpoonup> nat)" where
  "idToIndex decls = idToIndexFrom 0 decls Map.empty"

text \<open>
  The variant search of \<open>decodeEnumInto\<close>: the first tagged field whose ID, as a byte,
  is the variant ID.
\<close>

fun findVariantFrom :: "nat \<Rightarrow> (rtag \<times> gotype) list \<Rightarrow> byte \<Rightarrow> nat option" where
  "findVariantFrom i [] vid = None"
| "findVariantFrom i ((tag, t) # decls) vid =
     (case ParseRelishTag tag of
        None \<Rightarrow> findVariantFrom (Suc i) decls vid
      | Some (k, opt, omit) \<Rightarrow>
          if word_of_int k = vid then Some i else findVariantFrom (Suc i) decls vid)"

fun Elem :: "gotype \<Rightarrow> gotype" where
  "Elem (TPtr t) = t"
| "Elem t = t"

definition structFields :: "goval \<Rightarrow> goval list" where
  "structFields v = (case v of VStruct vs \<Rightarrow> vs | _ \<Rightarrow> [])"

lemma idToIndexFrom_bound:
  "idToIndexFrom i decls m k = Some idx \<Longrightarrow> m k = Some idx \<or> (i \<le> idx \<and> idx < i + length decls)"
  by (induction i decls m rule: idToIndexFrom.induct)
     (fastforce split: option.splits if_splits)+

lemma idToIndex_bound: "idToIndex decls k = Some idx \<Longrightarrow> idx < length decls"
  using idToIndexFrom_bound [of 0 decls Map.empty k idx] by (simp add: idToIndex_def)

lemma findVariantFrom_bound:
  "findVariantFrom i decls vid = Some idx \<Longrightarrow> i \<le> idx \<and> idx < i + length decls"
  by (induction i decls vid rule: findVariantFrom.induct)
     (fastforce split: option.splits if_splits)+

lemma tsize_nth:
  "idx < length decls \<Longrightarrow>
   Suc (tsize (snd (decls ! idx))) \<le> sum_list (map (\<lambda>(tag, t). Suc (tsize t)) decls)"
proof (induction decls arbitrary: idx)
  case Nil
  then show ?case by simp
next
  case (Cons d decls)
  show ?case
  proof (cases idx)
    case 0
    then show ?thesis by (cases d) simp
  next
    case (Suc k)
    with Cons.prems have "k < length decls" by simp
    from Cons.IH [OF this] Suc show ?thesis by (cases d) simp
  qed
qed

lemma isPointer_Elem: "isPointer t \<Longrightarrow> t = TPtr (Elem t)"
  by (cases t) (simp_all add: isPointer_def)

lemma io_ReadFull_length: "io_ReadFull r n = Inr (b, r') \<Longrightarrow> length r' \<le> length r"
  by (auto simp: io_ReadFull_def split: if_splits)

lemma ReadFull_length: "ReadFull r n = Inr (b, r') \<Longrightarrow> length r' \<le> length r"
  by (auto simp: ReadFull_def split: if_splits)

lemma ReadType_length: "ReadType r = Inr (t, r') \<Longrightarrow> length r' \<le> length r"
  by (auto simp: ReadType_def split: sum.splits if_splits dest: io_ReadFull_length)

lemma ReadLen_length: "ReadLen r = Inr (x, r') \<Longrightarrow> length r' \<le> length r"
  by (fastforce simp: ReadLen_def Let_def split: sum.splits if_splits prod.splits
        dest: io_ReadFull_length)

lemma readTLVBytes_length: "readTLVBytes r = Inr (out, r') \<Longrightarrow> length r' \<le> length r"
  by (fastforce simp: readTLVBytes_def Let_def split: sum.splits if_splits prod.splits
        dest: ReadType_length ReadLen_length ReadFull_length)

text \<open>
  \<open>Decode t v r\<close>: the target \<open>v\<close> of type \<open>t\<close> must be a non-nil pointer; the result is
  the new value of its pointee, with what is left of the reader.  \<open>structLoop\<close> is the
  \<open>for br.Len() > 0\<close> loop of \<open>decodeStructInto\<close>, with its variable \<open>prev\<close> and the
  fields of \<open>dst\<close> as they stand.  A call that fails returns only the error: the fields
  already written into the target at that point are not tracked.
\<close>

function Decode :: "gotype \<Rightarrow> goval \<Rightarrow> reader \<Rightarrow> error + (goval \<times> reader)"
  and decodeStructInto ::
    "(rtag \<times> gotype) list \<Rightarrow> goval list \<Rightarrow> reader \<Rightarrow> error + (goval list \<times> reader)"
  and structLoop ::
    "(rtag \<times> gotype) list \<Rightarrow> int \<Rightarrow> reader \<Rightarrow> goval list \<Rightarrow> error + goval list"
  and decodeEnumInto ::
    "(rtag \<times> gotype) list \<Rightarrow> goval list \<Rightarrow> reader \<Rightarrow> error + (goval list \<times> reader)"
where
  "Decode t v r =
     (if \<not> isPointer t \<or> IsNil v then
        Inl (Error ErrTypeMismatch ''Decode target must be non-nil pointer'')
      else
        (case Elem t of
           TStruct decls \<Rightarrow>
             (case ReadType r of
                Inl e \<Rightarrow> Inl e
              | Inr (ty, r1) \<Rightarrow>
                  if ty = 0x11 then
                    (case decodeStructInto decls (structFields (the (case v of VPtr p \<Rightarrow> p | _ \<Rightarrow> None))) r1 of
                       Inl e \<Rightarrow> Inl e
                     | Inr (vs, r2) \<Rightarrow> Inr (VStruct vs, r2))
                  else if ty = 0x12 then
                    (case decodeEnumInto decls (structFields (the (case v of VPtr p \<Rightarrow> p | _ \<Rightarrow> None))) r1 of
                       Inl e \<Rightarrow> Inl e
                     | Inr (vs, r2) \<Rightarrow> Inr (VStruct vs, r2))
                  else Inl (Error ErrTypeMismatch ''expected struct/enum TLV''))
         | TString \<Rightarrow>
             (case ReadStringTLV r of
                Inl e \<Rightarrow> Inl e
              | Inr (s, r1) \<Rightarrow> Inr (VString s, r1))
         | TBool \<Rightarrow>
             (case ReadBoolTLV r of
                Inl e \<Rightarrow> Inl e
              | Inr (b, r1) \<Rightarrow> Inr (VBool b, r1))
         | TUint32 \<Rightarrow>
             (case ReadU32TLV r of
                Inl e \<Rightarrow> Inl e
              | Inr (u, r1) \<Rightarrow> Inr (VUint32 u, r1))
         | _ \<Rightarrow> Inl ErrNotImplemented))"
| "decodeStructInto decls vs r =
     (case ReadLen r of
        Inl e \<Rightarrow> Inl e
      | Inr ((n, used), r1) \<Rightarrow>
          if n = 0 then Inr (vs, r1)
          else
            (case ReadFull r1 (nat n) of
               Inl e \<Rightarrow> Inl e
             | Inr (buf, r2) \<Rightarrow>
                 (case structLoop decls (- 1) buf vs of
                    Inl e \<Rightarrow> Inl e
                  | Inr vs' \<Rightarrow> Inr (vs', r2))))"
| "structLoop decls prev br vs =
     (case br of
        [] \<Rightarrow> Inr vs
      | b # br1 \<Rightarrow>
          if b AND 0x80 \<noteq> 0 then Inl (Error ErrInvalidFieldID ''top bit set'')
          else if uint b \<le> prev then
            Inl (Error ErrFieldOrder ''field ids not strictly increasing'')
          else
            (case readTLVBytes br1 of
               Inl e \<Rightarrow> Inl e
             | Inr (tlv, br2) \<Rightarrow>
                 (case idToIndex decls (uint b) of
                    None \<Rightarrow> structLoop decls (uint b) br2 vs
                  | Some idx \<Rightarrow>
                      let ft = snd (decls ! idx); f = vs ! idx in
                      if isPointer ft then
                        (case Decode ft (if IsNil f then VPtr (Some (zero (Elem ft))) else f) tlv of
                           Inl e \<Rightarrow> Inl e
                         | Inr (x, rest) \<Rightarrow>
                             structLoop decls (uint b) br2 (vs[idx := VPtr (Some x)]))
                      else
                        (case Decode (TPtr ft) (VPtr (Some f)) tlv of
                           Inl e \<Rightarrow> Inl e
                         | Inr (x, rest) \<Rightarrow>
                             structLoop decls (uint b) br2 (vs[idx := x])))))"
| "decodeEnumInto decls vs r =
     (case ReadLen r of
        Inl e \<Rightarrow> Inl e
      | Inr ((n, used), r1) \<Rightarrow>
          if n < 1 then Inl (Error ErrTypeMismatch ''enum content too short'')
          else
            (case ReadFull r1 (nat n) of
               Inl e \<Rightarrow> Inl e
             | Inr (buf, r2) \<Rightarrow>
                 (case findVariantFrom 0 decls (buf ! 0) of
                    None \<Rightarrow> Inl (Error ErrTypeMismatch ''unknown enum variant'')
                  | Some idx \<Rightarrow>
                      let ft = snd (decls ! idx); f = vs ! idx in
                      if \<not> isPointer ft then
                        Inl (Error ErrTypeMismatch ''enum field must be pointer'')
                      else
                        (case Decode ft (if IsNil f then VPtr (Some (zero (Elem ft))) else f)
                                (drop 1 buf) of
                           Inl e \<Rightarrow> Inl e
                         | Inr (x, br) \<Rightarrow>
                             if length br \<noteq> 0 then
                               Inl (Error ErrEnumLengthMismatch
                                      ''variant did not consume full length'')
                             else Inr (vs[idx := VPtr (Some x)], r2)))))"
  by pat_completeness auto

termination
  apply (relation "measures
     [\<lambda>x. case x of
          Inl (Inl (t, v, r)) \<Rightarrow> 2 * tsize t
        | Inl (Inr (decls, vs, r)) \<Rightarrow> 2 * tsize (TStruct decls) + 1
        | Inr (Inl (decls, prev, br, vs)) \<Rightarrow> 2 * tsize (TStruct decls)
        | Inr (Inr (decls, vs, r)) \<Rightarrow> 2 * tsize (TStruct decls) + 1,
      \<lambda>x. case x of
          Inr (Inl (decls, prev, br, vs)) \<Rightarrow> length br
        | _ \<Rightarrow> 0]")
          apply simp_all
  subgoal for t v r decls
    using isPointer_Elem [of t] by (cases t) simp_all
  subgoal for t v r decls
    using isPointer_Elem [of t] by (cases t) simp_all
  subgoal for decls prev br b br1 res tlv br2
    using readTLVBytes_length [of br1 tlv br2] by simp
  subgoal for decls prev br vs b br1 res tlv br2 idx
    using tsize_nth [OF idToIndex_bound, of decls "uint b" idx] by simp
  subgoal for decls prev br vs b br1 res tlv br2
    using readTLVBytes_length [of br1 tlv br2] by simp
  subgoal for decls prev br vs b br1 res tlv br2 idx
    using tsize_nth [OF idToIndex_bound, of decls "uint b" idx] by simp
  subgoal for decls prev br vs b br1 res tlv br2
    using readTLVBytes_length [of br1 tlv br2] by simp
  subgoal for decls vs r res x r1 n used res2 buf r2 idx
    using tsize_nth [of idx decls] findVariantFrom_bound [of 0 decls "buf ! 0" idx] by simp
  done

definition Unmarshal :: "bytes \<Rightarrow> gotype \<Rightarrow> goval \<Rightarrow> error + goval" where
  "Unmarshal data t v = (case Decode t v data of Inl e \<Rightarrow> Inl e | Inr (x, r) \<Rightarrow> Inr x)"


text \<open>
  \<open>Decoder.SkipValue\<close>: the error it returns (\<open>None\<close> for \<open>nil\<close>) and the reader as the
  call leaves it.
\<close>

definition SkipValue :: "reader \<Rightarrow> error option \<times> reader" where
  "SkipValue r = (Some ErrNotImplemented, r)"

section \<open>Evaluation and framing lemmas\<close>

declare encodeValue.simps [simp del] encodeStruct.simps [simp del]
declare Decode.simps [simp del] decodeStructInto.simps [simp del]
declare structLoop.simps [simp del] decodeEnumInto.simps [simp del]

lemmas codec_eval =
  io_ReadFull_def ReadFull_def WriteType_def ReadType_def WriteLen_def ReadLen_def
  SizeOfLen_def MaxLen_def EncodeLen_def DecodeLen_def FixedSize_def IsVarSize_def
  PutUint16_def PutUint32_def PutUint64_def Uint32_def WriteFixedTLV_def
  WriteBoolTLV_def WriteU8TLV_def WriteU16TLV_def WriteU32TLV_def WriteU64TLV_def
  WriteI8TLV_def WriteI16TLV_def WriteI32TLV_def WriteI64TLV_def WriteF32TLV_def
  WriteF64TLV_def ReadBoolTLV_def ReadU32TLV_def WriteStringTLV_def ReadStringTLV_def
  WriteStructTLV_def WriteEnumTLV_def WriteMapTLV_def ReadMapTLV_def
  readTLVBytes_def idToIndex_def structFields_def isPointer_def IsNil_def
  isPresent_def optCount_def presentOpt_def Marshal_def Unmarshal_def SkipValue_def
  quietNaN32_def
  ErrNotImplemented_def utf8_first_def Let_def
  encodeValue.simps encodeStruct.simps Decode.simps decodeStructInto.simps
  structLoop.simps decodeEnumInto.simps

section \<open>The length codec\<close>

lemma EncodeLen_short_tag: "(word_of_int (push_bit 1 n AND 254) :: byte) AND 1 = 0"
proof -
  have m: "(254::int) = push_bit 1 (mask 7)" by (simp add: mask_eq_exp_minus_1)
  show ?thesis
    unfolding m
    by (rule bit_word_eqI) (auto simp add: bit_simps simp del: push_bit_of_Suc_0 push_bit_Suc)
qed

lemma EncodeLen_short_value:
  assumes "0 \<le> n" "n \<le> 127"
  shows "uint (drop_bit 1 (word_of_int (push_bit 1 n AND 254) :: byte)) = n"
proof -
  have m: "(254::int) = push_bit 1 (mask 7)" by (simp add: mask_eq_exp_minus_1)
  have n: "n = take_bit 7 n" using assms by (simp add: take_bit_int_eq_self)
  show ?thesis
    unfolding m
    apply (subst (2) n)
    apply (rule bit_eqI)
    apply (auto simp add: bit_simps simp del: push_bit_of_Suc_0 push_bit_Suc)
    done
qed

lemma EncodeLen_long_tag:
  "(ucast (push_bit 1 ((u :: 32 word) AND 0x7F) OR 0x01) :: byte) AND 1 = 1"
  by (rule bit_word_eqI) (auto simp add: bit_simps simp del: push_bit_of_Suc_0 push_bit_Suc)

lemma EncodeLen_long_value:
  fixes n :: int
  assumes "0 \<le> n" "n < 2 ^ 31"
  shows "uint ((ucast (drop_bit 1 (ucast (push_bit 1 ((word_of_int n :: 32 word) AND 0x7F) OR 0x01) :: byte)) :: 32 word)
            OR push_bit 7 (ucast (ucast (drop_bit 7 (word_of_int n :: 32 word) AND 0xFF) :: byte) :: 32 word)
            OR push_bit 15 (ucast (ucast (drop_bit 15 (word_of_int n :: 32 word) AND 0xFF) :: byte) :: 32 word)
            OR push_bit 23 (ucast (ucast (drop_bit 23 (word_of_int n :: 32 word) AND 0xFF) :: byte) :: 32 word)) = n"
proof -
  have m7: "(0x7F::32 word) = mask 7" and m8: "(0xFF::32 word) = mask 8"
    by (simp_all add: mask_eq_exp_minus_1)
  have n: "n = take_bit 31 n" using assms by (simp add: take_bit_int_eq_self)
  have hi: "\<not> bit n k" if "31 \<le> k" for k
    using that by (subst n) (simp add: bit_simps)
  show ?thesis
    unfolding m7 m8
    apply (rule bit_eqI)
    subgoal for k
      using hi [of k]
      apply (simp add: bit_simps del: push_bit_of_Suc_0 push_bit_Suc)
      apply (cases "k < 7"; cases "k < 15"; cases "k < 23"; cases "k < 31"; simp)
        apply (cases "bit n k"; simp; arith)+
      done
    done
qed

lemma DecodeLen_EncodeLen:
  assumes "0 \<le> n" "n \<le> MaxLen"
  shows "DecodeLen (EncodeLen n) = (n, if n \<le> 127 then 1 else 4)"
proof (cases "n \<le> 127")
  case True
  define b0 :: byte where "b0 = word_of_int (push_bit 1 n AND 254)"
  have e: "EncodeLen n = [b0]"
    unfolding EncodeLen_def b0_def using True by (simp only: if_True)
  have t: "b0 AND 1 = 0" unfolding b0_def by (rule EncodeLen_short_tag)
  have v: "uint (drop_bit 1 b0) = n"
    unfolding b0_def using assms(1) True by (rule EncodeLen_short_value)
  show ?thesis using True t v by (simp add: e DecodeLen_def)
next
  case False
  from assms have lt: "n < 2 ^ 31" by (simp add: MaxLen_def)
  define u :: "32 word" where "u = word_of_int n"
  define b0 :: byte where "b0 = ucast (push_bit 1 (u AND 0x7F) OR 0x01)"
  define b1 :: byte where "b1 = ucast (drop_bit 7 u AND 0xFF)"
  define b2 :: byte where "b2 = ucast (drop_bit 15 u AND 0xFF)"
  define b3 :: byte where "b3 = ucast (drop_bit 23 u AND 0xFF)"
  have e: "EncodeLen n = [b0, b1, b2, b3]"
    unfolding EncodeLen_def b0_def b1_def b2_def b3_def u_def Let_def
    using False by (simp only: if_False)
  have t: "b0 AND 1 = 1" unfolding b0_def by (rule EncodeLen_long_tag)
  have v: "uint ((ucast (drop_bit 1 b0) :: 32 word) OR push_bit 7 (ucast b1)
              OR push_bit 15 (ucast b2) OR push_bit 23 (ucast b3)) = n"
    unfolding b0_def b1_def b2_def b3_def u_def
    using assms(1) lt by (rule EncodeLen_long_value)
  show ?thesis using False assms t v by (simp add: e DecodeLen_def Let_def)
qed

lemma length_EncodeLen: "length (EncodeLen n) = (if n \<le> 127 then 1 else 4)"
  unfolding EncodeLen_def Let_def by (simp only: if_distrib [of length] list.size) simp

lemma DecodeLen_single_long: "b AND 1 = 1 \<Longrightarrow> DecodeLen [b] = (- 1, 0)"
  by (simp add: DecodeLen_def)

text \<open>
  Claim C5.  For every length \<open>n\<close> between 0 and \<open>2^31 - 1\<close>, decoding the bytes that
  \<open>EncodeLen\<close> produces gives back \<open>n\<close> and the byte count \<open>SizeOfLen n\<close>; the encoding has
  one byte exactly when \<open>n \<le> 127\<close> and four bytes otherwise; and decoding a single byte
  whose low bit is set fails with \<open>(-1, 0)\<close>.
\<close>

theorem length_codec_laws:
  assumes "0 \<le> n" and "n \<le> 2 ^ 31 - 1"
  shows "DecodeLen (EncodeLen n) = (n, SizeOfLen n)
       \<and> (length (EncodeLen n) = 1 \<longleftrightarrow> n \<le> 127)
       \<and> (127 < n \<longrightarrow> length (EncodeLen n) = 4)
       \<and> (\<forall>b. b AND 1 = 1 \<longrightarrow> DecodeLen [b] = (- 1, 0))"
proof -
  from assms have le: "n \<le> MaxLen" by (simp add: MaxLen_def)
  have "DecodeLen (EncodeLen n) = (n, SizeOfLen n)"
    using DecodeLen_EncodeLen [OF assms(1) le] assms(1) le by (simp add: SizeOfLen_def)
  moreover have "length (EncodeLen n) = 1 \<longleftrightarrow> n \<le> 127"
    by (simp add: length_EncodeLen)
  moreover have "127 < n \<longrightarrow> length (EncodeLen n) = 4"
    by (simp add: length_EncodeLen)
  moreover have "\<forall>b. b AND 1 = 1 \<longrightarrow> DecodeLen [b] = (- 1, 0)"
    by (simp add: DecodeLen_single_long)
  ultimately show ?thesis by blast
qed

theorem length_codec_laws_witness:
  "(0::int) \<le> 300 \<and> (300::int) \<le> 2 ^ 31 - 1
   \<and> DecodeLen (EncodeLen 300) = (300, 4)
   \<and> length (EncodeLen 300) = 4
   \<and> (3::byte) AND 1 = 1 \<and> DecodeLen [3] = (- 1, 0)"
  using length_codec_laws [of 300] by (simp add: SizeOfLen_def MaxLen_def)


section \<open>Reading back what the writers produce\<close>

lemma EncodeLen_shape:
  "(n \<le> 127 \<longrightarrow> (\<exists>b0. EncodeLen n = [b0] \<and> b0 AND 1 = 0))
   \<and> (127 < n \<longrightarrow> (\<exists>b0 b1 b2 b3. EncodeLen n = [b0, b1, b2, b3] \<and> b0 AND 1 = 1))"
proof (cases "n \<le> 127")
  case True
  have "EncodeLen n = [word_of_int (push_bit 1 n AND 254)]"
    unfolding EncodeLen_def using True by (simp only: if_True)
  with True show ?thesis using EncodeLen_short_tag [of n] by simp
next
  case False
  have "\<exists>b1 b2 b3. EncodeLen n =
          [ucast (push_bit 1 ((word_of_int n :: 32 word) AND 0x7F) OR 0x01), b1, b2, b3]"
    unfolding EncodeLen_def Let_def using False by (simp only: if_False) blast
  with False show ?thesis using EncodeLen_long_tag [of "word_of_int n"] by auto
qed

lemma ReadLen_EncodeLen:
  assumes "0 \<le> n" "n \<le> MaxLen"
  shows "ReadLen (EncodeLen n @ rest) = Inr ((n, if n \<le> 127 then 1 else 4), rest)"
proof (cases "n \<le> 127")
  case True
  with EncodeLen_shape [of n] obtain b0 where e: "EncodeLen n = [b0]" and t: "b0 AND 1 = 0"
    by auto
  from DecodeLen_EncodeLen [OF assms] True e have "DecodeLen [b0] = (n, 1)" by simp
  with True t show ?thesis by (simp add: e ReadLen_def io_ReadFull_def)
next
  case False
  with EncodeLen_shape [of n] obtain b0 b1 b2 b3
    where e: "EncodeLen n = [b0, b1, b2, b3]" and t: "b0 AND 1 = 1"
    by auto
  from DecodeLen_EncodeLen [OF assms] False e have "DecodeLen [b0, b1, b2, b3] = (n, 4)" by simp
  with False t assms(1) show ?thesis by (simp add: e ReadLen_def io_ReadFull_def)
qed

lemma WriteLen_ok: "0 \<le> n \<Longrightarrow> n \<le> MaxLen \<Longrightarrow> WriteLen n = Inr (EncodeLen n)"
  by (simp add: WriteLen_def SizeOfLen_def)

lemma ReadFull_append: "ReadFull (buf @ rest) (length buf) = Inr (buf, rest)"
  by (simp add: ReadFull_def)

lemma ReadType_Cons: "t AND 0x80 = 0 \<Longrightarrow> ReadType (t # r) = Inr (t, r)"
  by (simp add: ReadType_def io_ReadFull_def)

lemma ReadType_reserved: "t AND 0x80 \<noteq> 0 \<Longrightarrow> ReadType (t # r) = Inl errInvalidTypeID"
  by (simp add: ReadType_def io_ReadFull_def)

lemma deref_nonpointer: "\<not> isPointer t \<Longrightarrow> deref t v = (t, v)"
  by (cases t; cases v) (simp_all add: isPointer_def)

lemma encodeValue_nil:
  "\<not> isPointer t \<Longrightarrow> encodeValue (TPtr t) (VPtr None) = encodeValue t (zero t)"
  by (simp add: encodeValue.simps deref_nonpointer)

lemma bit_128_byte: "bit (128 :: byte) n \<longleftrightarrow> n = 7"
proof -
  have "bit (2 ^ 7 :: byte) n \<longleftrightarrow> n = 7"
    by (simp only: bit_exp_iff) auto
  then show ?thesis by simp
qed

lemma bit_128_int: "bit (128 :: int) n \<longleftrightarrow> n = 7"
proof -
  have "bit (2 ^ 7 :: int) n \<longleftrightarrow> n = 7"
    by (simp only: bit_exp_iff) auto
  then show ?thesis by simp
qed

lemma uint_fid: "0 \<le> k \<Longrightarrow> k < 0x80 \<Longrightarrow> (word_of_int k :: byte) AND 0x80 = 0"
proof -
  assume a: "0 \<le> k" "k < 0x80"
  have k: "k = take_bit 7 k" using a by (simp add: take_bit_int_eq_self)
  show ?thesis
    apply (subst k)
    apply (rule bit_word_eqI)
    apply (auto simp add: bit_simps bit_128_byte bit_128_int)
    done
qed


section \<open>Maps: the framer and duplicate keys\<close>

text \<open>
  Claim C6, as stated, fails.  A map whose two keys have the byte-equal payload
  \<open>01 00 00 00\<close> is framed by \<open>WriteMapTLV\<close> without error, and \<open>ReadMapTLV\<close> reads
  those wire bytes back without error: neither answers \<open>DuplicateMapKey\<close>.
\<close>

theorem duplicate_map_keys_not_rejected:
  "WriteMapTLV 0x04 0x04 (Inr [1,0,0,0, 2,0,0,0, 1,0,0,0, 3,0,0,0])
     = Inr [0x10, 0x24, 0x04, 0x04, 1,0,0,0, 2,0,0,0, 1,0,0,0, 3,0,0,0]
   \<and> ReadMapTLV [0x10, 0x24, 0x04, 0x04, 1,0,0,0, 2,0,0,0, 1,0,0,0, 3,0,0,0]
     = Inr ((0x04, 0x04, [1,0,0,0, 2,0,0,0, 1,0,0,0, 3,0,0,0]), [])"
  by (simp add: codec_eval)

text \<open>
  Claim C6, amended.  The map framer does not look into the pairs: for key and value
  type bytes with the reserved bit clear and any staged pair bytes that fit the length
  range, \<open>WriteMapTLV\<close> succeeds with \<open>[0x10][len][key type][value type][pairs]\<close>, and
  \<open>ReadMapTLV\<close> on those bytes succeeds and returns the two type bytes and the pair
  bytes unchanged, whether or not two keys in them are byte-equal.
\<close>

theorem map_framer_passes_pairs_through:
  assumes "keyType AND 0x80 = 0" and "valueType AND 0x80 = 0"
    and "int (length pairs) + 2 \<le> MaxLen"
  shows "WriteMapTLV keyType valueType (Inr pairs)
           = Inr (0x10 # EncodeLen (int (length pairs) + 2) @ keyType # valueType # pairs)
       \<and> ReadMapTLV (0x10 # EncodeLen (int (length pairs) + 2) @ keyType # valueType # pairs @ rest)
           = Inr ((keyType, valueType, pairs), rest)"
proof -
  let ?n = "int (length pairs) + 2"
  have n0: "0 \<le> ?n" by simp
  have w: "WriteMapTLV keyType valueType (Inr pairs)
           = Inr (0x10 # EncodeLen ?n @ keyType # valueType # pairs)"
    using assms by (simp add: WriteMapTLV_def WriteType_def WriteLen_ok [OF n0 assms(3)] add.commute)
  have rf: "ReadFull ((keyType # valueType # pairs) @ rest) (nat ?n)
              = Inr (keyType # valueType # pairs, rest)"
    using ReadFull_append [of "keyType # valueType # pairs" rest]
    by (simp add: nat_add_distrib)
  have r: "ReadMapTLV (0x10 # EncodeLen ?n @ keyType # valueType # pairs @ rest)
           = Inr ((keyType, valueType, pairs), rest)"
    using assms rf
    by (simp add: ReadMapTLV_def ReadType_Cons ReadLen_EncodeLen [OF n0 assms(3)])
  from w r show ?thesis by simp
qed

theorem map_framer_passes_pairs_through_witness:
  "WriteMapTLV 0x0E 0x0E (Inr [0x02, 0x61, 0x02, 0x78, 0x02, 0x61, 0x02, 0x79])
     = Inr (0x10 # EncodeLen 10 @ [0x0E, 0x0E, 0x02, 0x61, 0x02, 0x78, 0x02, 0x61, 0x02, 0x79])
   \<and> ReadMapTLV (0x10 # EncodeLen 10 @ [0x0E, 0x0E, 0x02, 0x61, 0x02, 0x78, 0x02, 0x61, 0x02, 0x79])
     = Inr ((0x0E, 0x0E, [0x02, 0x61, 0x02, 0x78, 0x02, 0x61, 0x02, 0x79]), [])"
  using map_framer_passes_pairs_through
    [of "0x0E" "0x0E" "[0x02, 0x61, 0x02, 0x78, 0x02, 0x61, 0x02, 0x79]" "[]"]
  by (simp add: MaxLen_def)

section \<open>Repeated field IDs in a descriptor\<close>

text \<open>
  Claim C7 at its failing input.  A struct with two fields that are both tagged with
  ID 0 is encoded without any error: \<open>Marshal\<close> returns a struct TLV in which field ID 0
  appears twice, and \<open>Unmarshal\<close> into the same struct type rejects those very bytes with
  \<open>FieldOrder\<close>.
\<close>

theorem repeated_field_id_encodes_silently:
  "Marshal (TStruct [(Tag 0 False False, TUint32), (Tag 0 False False, TUint32)])
           (VStruct [VUint32 1, VUint32 2])
     = Inr [0x11, 0x18, 0x00, 0x04, 1, 0, 0, 0, 0x00, 0x04, 2, 0, 0, 0]
   \<and> Unmarshal [0x11, 0x18, 0x00, 0x04, 1, 0, 0, 0, 0x00, 0x04, 2, 0, 0, 0]
        (TPtr (TStruct [(Tag 0 False False, TUint32), (Tag 0 False False, TUint32)]))
        (VPtr (Some (VStruct [VUint32 0, VUint32 0])))
     = Inl (Error ErrFieldOrder ''field ids not strictly increasing'')"
  by (simp add: codec_eval)

section \<open>Skipping values\<close>

text \<open>
  Claim C8 at its failing input.  With the complete TLV \<open>04 2A 00 00 00\<close> (the u32 42) at
  the cursor, \<open>SkipValue\<close> returns the not-implemented error and leaves the cursor where
  it was, while \<open>readTLVBytes\<close> on the same input consumes exactly those five bytes.
\<close>

theorem SkipValue_is_a_stub:
  "SkipValue [0x04, 0x2A, 0, 0, 0] = (Some ErrNotImplemented, [0x04, 0x2A, 0, 0, 0])
   \<and> readTLVBytes [0x04, 0x2A, 0, 0, 0] = Inr ([0x04, 0x2A, 0, 0, 0], [])"
  by (simp add: codec_eval)

text \<open>
  Claim C9 at its failing input.  The type byte \<open>0x14\<close> lies outside \<open>0x00\<close>--\<open>0x13\<close>:
  \<open>IsVarSize\<close> and \<open>FixedSize\<close> both say no, yet \<open>readTLVBytes\<close> does not fail on it.  It
  reads the next byte as a length prefix and consumes that many bytes, and a struct
  whose unknown field 2 carries such a value decodes without error.
\<close>

theorem skip_accepts_undefined_type_id:
  "IsVarSize 0x14 = False \<and> FixedSize 0x14 = (0, False)
   \<and> readTLVBytes [0x14, 0x02, 0xAA, 0xBB] = Inr ([0x14, 0x02, 0xAA], [0xBB])
   \<and> Unmarshal [0x11, 0x14, 0x00, 0x04, 0x2A, 0, 0, 0, 0x02, 0x14, 0x02, 0xAA]
        (TPtr (TStruct [(Tag 0 False False, TUint32)])) (VPtr (Some (VStruct [VUint32 0])))
     = Inr (VStruct [VUint32 42])"
  by (simp add: codec_eval)

section \<open>Nil pointers in fields that are not optional\<close>

text \<open>
  Claim C10, as stated, fails.  A nil \<open>*uint32\<close> in a field that is not optional but is
  marked \<open>omitempty\<close> is omitted (the struct is encoded as \<open>11 00\<close>), and a nil
  \<open>**uint32\<close> in a field with neither modifier makes the encoder fail.
\<close>

theorem nil_pointer_field_omitted_or_failing:
  "Marshal (TStruct [(Tag 0 False True, TPtr TUint32)]) (VStruct [VPtr None])
     = Inr [0x11, 0x00]
   \<and> Marshal (TStruct [(Tag 0 False False, TPtr (TPtr TUint32))]) (VStruct [VPtr None])
     = Inl ErrNotImplemented"
  by (simp add: codec_eval)

text \<open>
  Claim C10, amended.  For a field with a valid ID whose value is a nil pointer, whose
  binding is neither \<open>optional\<close> nor \<open>omitempty\<close> and whose pointee type is not itself a
  pointer, the encoder does not omit the field: it writes the field ID byte followed by
  the encoding of the zero value of the pointee type, and fails only where encoding
  that zero value fails.  For a nil \<open>*uint32\<close> the value bytes are \<open>04 00 00 00 00\<close>, for
  a nil \<open>*bool\<close> \<open>01 00\<close>, for a nil \<open>*string\<close> \<open>0E 00\<close>.
\<close>

theorem nil_pointer_field_encodes_zero:
  assumes "\<not> optional fi" and "\<not> omitempty fi"
    and "ftype fi = TPtr t" and "fvalue fi = VPtr None" and "\<not> isPointer t"
    and "0 \<le> fid fi" and "fid fi < 0x80"
  shows "encodeFields (fi # rest) =
           (case encodeValue t (zero t) of
              Inl e \<Rightarrow> Inl e
            | Inr zb \<Rightarrow>
                (case encodeFields rest of
                   Inl e \<Rightarrow> Inl e
                 | Inr rb \<Rightarrow> Inr (word_of_int (fid fi) # zb @ rb)))
       \<and> (t = TUint32 \<longrightarrow> encodeValue t (zero t) = Inr [0x04, 0, 0, 0, 0])
       \<and> (t = TBool \<longrightarrow> encodeValue t (zero t) = Inr [0x01, 0])
       \<and> (t = TString \<longrightarrow> encodeValue t (zero t) = Inr [0x0E, 0])"
proof -
  have id_ok: "WriteType (word_of_int (fid fi)) = Inr [word_of_int (fid fi)]"
    using uint_fid [OF assms(6,7)] by (simp add: WriteType_def)
  have "encodeFields (fi # rest) =
           (case encodeValue t (zero t) of
              Inl e \<Rightarrow> Inl e
            | Inr zb \<Rightarrow>
                (case encodeFields rest of
                   Inl e \<Rightarrow> Inl e
                 | Inr rb \<Rightarrow> Inr (word_of_int (fid fi) # zb @ rb)))"
    using assms(1-5) by (simp add: id_ok encodeValue_nil split: sum.splits)
  moreover have "t = TUint32 \<longrightarrow> encodeValue t (zero t) = Inr [0x04, 0, 0, 0, 0]"
    by (simp add: codec_eval)
  moreover have "t = TBool \<longrightarrow> encodeValue t (zero t) = Inr [0x01, 0]"
    by (simp add: codec_eval)
  moreover have "t = TString \<longrightarrow> encodeValue t (zero t) = Inr [0x0E, 0]"
    by (simp add: codec_eval)
  ultimately show ?thesis by blast
qed

theorem nil_pointer_field_encodes_zero_witness:
  "encodeFields [\<lparr>fid = 0, optional = False, omitempty = False, ftype = TPtr TUint32,
                   fvalue = VPtr None\<rparr>] = Inr [0x00, 0x04, 0, 0, 0, 0]
   \<and> Marshal (TStruct [(Tag 0 False False, TPtr TUint32)]) (VStruct [VPtr None])
       = Inr [0x11, 0x0C, 0x00, 0x04, 0, 0, 0, 0]"
  using nil_pointer_field_encodes_zero
    [of "\<lparr>fid = 0, optional = False, omitempty = False, ftype = TPtr TUint32,
           fvalue = VPtr None\<rparr>" TUint32 "[]"]
  by (simp add: codec_eval)


section \<open>Enum frames\<close>

text \<open>
  Claim C4.  An enum decode succeeds only if the decode of the variant's inner TLV
  left exactly zero bytes of the declared enum length; and whenever the inner TLV was
  decoded, the enum decode succeeds if no byte remains and fails with
  \<open>EnumLengthMismatch\<close> if any byte remains.
\<close>

theorem enum_payload_consumed_exactly:
  "(decodeEnumInto decls vs r = Inr res \<longrightarrow>
      (\<exists>n used r1 buf r2 idx x.
         ReadLen r = Inr ((n, used), r1) \<and> 1 \<le> n \<and> ReadFull r1 (nat n) = Inr (buf, r2)
         \<and> findVariantFrom 0 decls (buf ! 0) = Some idx
         \<and> Decode (snd (decls ! idx))
              (if IsNil (vs ! idx) then VPtr (Some (zero (Elem (snd (decls ! idx)))))
               else vs ! idx) (drop 1 buf) = Inr (x, [])
         \<and> res = (vs[idx := VPtr (Some x)], r2)))
   \<and> (\<forall>n used r1 buf r2 idx x br.
         ReadLen r = Inr ((n, used), r1) \<and> 1 \<le> n \<and> ReadFull r1 (nat n) = Inr (buf, r2)
         \<and> findVariantFrom 0 decls (buf ! 0) = Some idx \<and> isPointer (snd (decls ! idx))
         \<and> Decode (snd (decls ! idx))
              (if IsNil (vs ! idx) then VPtr (Some (zero (Elem (snd (decls ! idx)))))
               else vs ! idx) (drop 1 buf) = Inr (x, br)
         \<longrightarrow>
           (br = [] \<longrightarrow> decodeEnumInto decls vs r = Inr (vs[idx := VPtr (Some x)], r2))
         \<and> (br \<noteq> [] \<longrightarrow> decodeEnumInto decls vs r
               = Inl (Error ErrEnumLengthMismatch ''variant did not consume full length'')))"
proof (intro conjI impI allI)
  assume "decodeEnumInto decls vs r = Inr res"
  then show "\<exists>n used r1 buf r2 idx x.
         ReadLen r = Inr ((n, used), r1) \<and> 1 \<le> n \<and> ReadFull r1 (nat n) = Inr (buf, r2)
         \<and> findVariantFrom 0 decls (buf ! 0) = Some idx
         \<and> Decode (snd (decls ! idx))
              (if IsNil (vs ! idx) then VPtr (Some (zero (Elem (snd (decls ! idx)))))
               else vs ! idx) (drop 1 buf) = Inr (x, [])
         \<and> res = (vs[idx := VPtr (Some x)], r2)"
    by (auto simp add: decodeEnumInto.simps Let_def
          split: sum.splits prod.splits if_splits option.splits)
next
  fix n used r1 buf r2 idx x br
  assume h: "ReadLen r = Inr ((n, used), r1) \<and> 1 \<le> n \<and> ReadFull r1 (nat n) = Inr (buf, r2)
         \<and> findVariantFrom 0 decls (buf ! 0) = Some idx \<and> isPointer (snd (decls ! idx))
         \<and> Decode (snd (decls ! idx))
              (if IsNil (vs ! idx) then VPtr (Some (zero (Elem (snd (decls ! idx)))))
               else vs ! idx) (drop 1 buf) = Inr (x, br)"
  {
    assume "br = []"
    with h show "decodeEnumInto decls vs r = Inr (vs[idx := VPtr (Some x)], r2)"
      by (simp add: decodeEnumInto.simps Let_def)
  }
  {
    assume "br \<noteq> []"
    with h show "decodeEnumInto decls vs r
               = Inl (Error ErrEnumLengthMismatch ''variant did not consume full length'')"
      by (simp add: decodeEnumInto.simps Let_def)
  }
qed

theorem enum_payload_consumed_exactly_witness:
  "Unmarshal [0x12, 0x0C, 0x00, 0x04, 0x2A, 0, 0, 0]
      (TPtr (TStruct [(Tag 0 True False, TPtr TUint32)])) (VPtr (Some (VStruct [VPtr None])))
     = Inr (VStruct [VPtr (Some (VUint32 42))])
   \<and> decodeEnumInto [(Tag 0 True False, TPtr TUint32)] [VPtr None]
        [0x0E, 0x00, 0x04, 0x2A, 0, 0, 0, 0xFF]
     = Inl (Error ErrEnumLengthMismatch ''variant did not consume full length'')
   \<and> Unmarshal [0x12, 0x0E, 0x00, 0x04, 0x2A, 0, 0, 0, 0xFF]
      (TPtr (TStruct [(Tag 0 True False, TPtr TUint32)])) (VPtr (Some (VStruct [VPtr None])))
     = Inl (Error ErrEnumLengthMismatch ''variant did not consume full length'')"
proof -
  have a: "ReadLen [0x0E, 0x00, 0x04, 0x2A, 0, 0, 0, 0xFF]
             = Inr ((7, 1), [0x00, 0x04, 0x2A, 0, 0, 0, 0xFF])"
    by (simp add: codec_eval)
  have b: "ReadFull [0x00, 0x04, 0x2A, 0, 0, 0, 0xFF] (nat 7)
             = Inr ([0x00, 0x04, 0x2A, 0, 0, 0, 0xFF], [])"
    by (simp add: codec_eval)
  have c: "findVariantFrom 0 [(Tag 0 True False, TPtr TUint32)]
             ([0x00, 0x04, 0x2A, 0, 0, 0, 0xFF] ! 0) = Some 0"
    by simp
  have d: "Decode (snd ([(Tag 0 True False, TPtr TUint32)] ! 0))
              (if IsNil ([VPtr None] ! 0)
               then VPtr (Some (zero (Elem (snd ([(Tag 0 True False, TPtr TUint32)] ! 0)))))
               else [VPtr None] ! 0) (drop 1 [0x00, 0x04, 0x2A, 0, 0, 0, 0xFF])
           = Inr (VUint32 42, [0xFF])"
    by (simp add: codec_eval)
  have e: "decodeEnumInto [(Tag 0 True False, TPtr TUint32)] [VPtr None]
        [0x0E, 0x00, 0x04, 0x2A, 0, 0, 0, 0xFF]
     = Inl (Error ErrEnumLengthMismatch ''variant did not consume full length'')"
    using enum_payload_consumed_exactly
      [of "[(Tag 0 True False, TPtr TUint32)]" "[VPtr None]"
          "[0x0E, 0x00, 0x04, 0x2A, 0, 0, 0, 0xFF]" "([], [])"]
      a b c d
    by (simp add: isPointer_def)
  have f: "Unmarshal [0x12, 0x0C, 0x00, 0x04, 0x2A, 0, 0, 0]
      (TPtr (TStruct [(Tag 0 True False, TPtr TUint32)])) (VPtr (Some (VStruct [VPtr None])))
     = Inr (VStruct [VPtr (Some (VUint32 42))])"
    by (simp add: codec_eval)
  have g: "Unmarshal [0x12, 0x0E, 0x00, 0x04, 0x2A, 0, 0, 0, 0xFF]
      (TPtr (TStruct [(Tag 0 True False, TPtr TUint32)])) (VPtr (Some (VStruct [VPtr None])))
     = Inl (Error ErrEnumLengthMismatch ''variant did not consume full length'')"
    by (simp add: codec_eval)
  from e f g show ?thesis by simp
qed

section \<open>Struct payloads on the wire\<close>

text \<open>
  A complete TLV of a defined type: a type byte from \<open>0x00\<close> to \<open>0x13\<close>, followed by
  exactly the content that the type-size table or the length prefix announces.
\<close>

definition completeTLV :: "bytes \<Rightarrow> bool" where
  "completeTLV tlv =
     (case tlv of
        [] \<Rightarrow> False
      | t # body \<Rightarrow>
          t AND 0x80 = 0 \<and> t \<le> 0x13
          \<and> (case FixedSize t of (n, ok) \<Rightarrow>
                if ok then length body = nat n
                else
                  (case ReadLen body of
                     Inl e \<Rightarrow> False
                   | Inr ((n, used), content) \<Rightarrow> length content = nat n)))"

text \<open>
  The payload of a struct TLV as a list of fields, each a field-ID byte with the bytes
  of its value; the IDs of those fields; the fields a descriptor binds; the struct TLV
  around a payload.
\<close>

fun wireFields :: "(byte \<times> bytes) list \<Rightarrow> bytes" where
  "wireFields [] = []"
| "wireFields ((b, tlv) # fs) = b # tlv @ wireFields fs"

definition wireIDs :: "(byte \<times> bytes) list \<Rightarrow> int list" where
  "wireIDs fs = map (\<lambda>(b, tlv). uint b) fs"

definition validFields :: "(byte \<times> bytes) list \<Rightarrow> bool" where
  "validFields fs = list_all (\<lambda>(b, tlv). b AND 0x80 = 0 \<and> completeTLV tlv) fs"


definition structTLV :: "bytes \<Rightarrow> bytes" where
  "structTLV payload = 0x11 # EncodeLen (int (length payload)) @ payload"

lemma ReadLen_append:
  "ReadLen r = Inr (x, r') \<Longrightarrow> ReadLen (r @ tl0) = Inr (x, r' @ tl0)"
  by (cases r)
     (auto simp: ReadLen_def io_ReadFull_def Let_def split: if_splits)

lemma ReadLen_nonneg: "ReadLen r = Inr ((n, used), r') \<Longrightarrow> 0 \<le> n"
  by (cases r)
     (auto simp: ReadLen_def io_ReadFull_def DecodeLen_def Let_def split: if_splits)

lemma ReadFull_exact: "length c = k \<Longrightarrow> ReadFull (c @ rest) k = Inr (c, rest)"
  by (simp add: ReadFull_def)

lemma readTLVBytes_complete:
  assumes "completeTLV tlv"
  shows "\<exists>out. \<forall>rest. readTLVBytes (tlv @ rest) = Inr (out, rest)"
proof (cases tlv)
  case Nil
  with assms show ?thesis by (simp add: completeTLV_def)
next
  case (Cons t body)
  with assms have t: "t AND 0x80 = 0" by (simp add: completeTLV_def)
  obtain n ok where fs: "FixedSize t = (n, ok)" by (cases "FixedSize t")
  show ?thesis
  proof (cases ok)
    case True
    with assms Cons fs have len: "length body = nat n" by (simp add: completeTLV_def)
    show ?thesis
    proof (cases "n = 0")
      case z: True
      with len have "body = []" by simp
      with Cons t fs True z show ?thesis
        by (simp add: readTLVBytes_def ReadType_Cons)
    next
      case nz: False
      with Cons t fs True len show ?thesis
        by (simp add: readTLVBytes_def ReadType_Cons ReadFull_exact)
    qed
  next
    case False
    with assms Cons fs obtain m used content
      where rl: "ReadLen body = Inr ((m, used), content)" and len: "length content = nat m"
      by (auto simp: completeTLV_def split: sum.splits)
    from ReadLen_nonneg [OF rl] have m0: "0 \<le> m" .
    have rl': "ReadLen (body @ rest) = Inr ((m, used), content @ rest)" for rest
      using ReadLen_append [OF rl] .
    show ?thesis
    proof (cases "m > 0")
      case pos: True
      with Cons t fs False rl' len show ?thesis
        by (simp add: readTLVBytes_def ReadType_Cons ReadFull_exact Let_def)
    next
      case npos: False
      with m0 len have "content = []" by simp
      with Cons t fs False rl' npos show ?thesis
        by (simp add: readTLVBytes_def ReadType_Cons Let_def)
    qed
  qed
qed

lemma sorted_wrt_less_Cons2:
  "sorted_wrt (<) (p # (x::int) # xs) \<longleftrightarrow> p < x \<and> sorted_wrt (<) (x # xs)"
  by auto






lemma decodeStructInto_frame:
  assumes "int (length payload) \<le> MaxLen"
  shows "decodeStructInto decls vs (EncodeLen (int (length payload)) @ payload @ rest)
         = (case structLoop decls (- 1) payload vs of
              Inl e \<Rightarrow> Inl e
            | Inr vs' \<Rightarrow> Inr (vs', rest))"
proof -
  have n0: "0 \<le> int (length payload)" by simp
  note rl = ReadLen_EncodeLen [OF n0 assms, of "payload @ rest"]
  show ?thesis
  proof (cases "payload = []")
    case True
    with rl show ?thesis by (simp add: decodeStructInto.simps structLoop.simps)
  next
    case False
    with rl show ?thesis by (simp add: decodeStructInto.simps ReadFull_exact)
  qed
qed

lemma Decode_struct:
  "Decode (TPtr (TStruct decls)) (VPtr (Some (VStruct vs))) (0x11 # r)
   = (case decodeStructInto decls vs r of
        Inl e \<Rightarrow> Inl e
      | Inr (vs', r2) \<Rightarrow> Inr (VStruct vs', r2))"
  by (simp add: Decode.simps isPointer_def IsNil_def ReadType_Cons structFields_def)

lemma Unmarshal_structTLV:
  assumes "int (length payload) \<le> MaxLen"
  shows "Unmarshal (structTLV payload) (TPtr (TStruct decls)) (VPtr (Some (VStruct vs)))
         = (case structLoop decls (- 1) payload vs of
              Inl e \<Rightarrow> Inl e
            | Inr vs' \<Rightarrow> Inr (VStruct vs'))"
  using decodeStructInto_frame [OF assms, of decls vs "[]"]
  by (simp add: Unmarshal_def structTLV_def Decode_struct split: sum.splits)







section \<open>Field order\<close>

text \<open>
  A field of the payload is decodable into a descriptor when its ID is not bound, or
  the bytes \<open>readTLVBytes\<close> returns for its value decode into the bound slot, whatever
  the slot holds.
\<close>

definition fieldDecodable :: "(rtag \<times> gotype) list \<Rightarrow> byte \<times> bytes \<Rightarrow> bool" where
  "fieldDecodable decls f =
     (case f of (b, tlv) \<Rightarrow>
        (case idToIndex decls (uint b) of
           None \<Rightarrow> True
         | Some idx \<Rightarrow>
             (case readTLVBytes tlv of
                Inl e \<Rightarrow> False
              | Inr (out, rest) \<Rightarrow>
                  (let ft = snd (decls ! idx) in
                   \<forall>cur. \<exists>x r.
                     (if isPointer ft
                      then Decode ft (if IsNil cur then VPtr (Some (zero (Elem ft))) else cur) out
                      else Decode (TPtr ft) (VPtr (Some cur)) out) = Inr (x, r)))))"

text \<open>
  The fields the second loop of \<open>encodeStruct\<close> writes: those it does not pass over as a
  nil optional pointer or as an empty \<open>omitempty\<close> value.
\<close>

definition emitted :: "fieldInfo \<Rightarrow> bool" where
  "emitted fi =
     (\<not> (optional fi \<and> isPointer (ftype fi) \<and> IsNil (fvalue fi))
      \<and> \<not> (omitempty fi \<and> isZeroValue (ftype fi) (fvalue fi)))"

lemma structLoop_order:
  assumes "validFields fs" "list_all (fieldDecodable decls) fs"
  shows "(sorted_wrt (<) (prev # wireIDs fs) \<longrightarrow>
            (\<exists>vs'. structLoop decls prev (wireFields fs) vs = Inr vs'))
       \<and> (\<not> sorted_wrt (<) (prev # wireIDs fs) \<longrightarrow>
            structLoop decls prev (wireFields fs) vs
              = Inl (Error ErrFieldOrder ''field ids not strictly increasing''))"
  using assms
proof (induction fs arbitrary: prev vs)
  case Nil
  then show ?case by (simp add: structLoop.simps wireIDs_def)
next
  case (Cons f fs)
  obtain b tlv where f: "f = (b, tlv)" by (cases f)
  from Cons.prems f have b: "b AND 0x80 = 0" and c: "completeTLV tlv" and v: "validFields fs"
    by (simp_all add: validFields_def)
  from Cons.prems f have d: "fieldDecodable decls (b, tlv)" and ds: "list_all (fieldDecodable decls) fs"
    by simp_all
  from readTLVBytes_complete [OF c] obtain out
    where out: "\<And>rest. readTLVBytes (tlv @ rest) = Inr (out, rest)" by blast
  from out [of "[]"] have out0: "readTLVBytes tlv = Inr (out, [])" by simp
  have ids: "wireIDs (f # fs) = uint b # wireIDs fs" using f by (simp add: wireIDs_def)
  note IH = Cons.IH [OF v ds]
  show ?case
  proof (cases "uint b \<le> prev")
    case True
    then show ?thesis
      unfolding ids using f b by (auto simp add: structLoop.simps [of decls prev])
  next
    case False
    then have s: "sorted_wrt (<) (prev # wireIDs (f # fs)) \<longleftrightarrow> sorted_wrt (<) (uint b # wireIDs fs)"
      unfolding ids by auto
    show ?thesis
    proof (cases "idToIndex decls (uint b)")
      case None
      have "structLoop decls prev (wireFields (f # fs)) vs
              = structLoop decls (uint b) (wireFields fs) vs"
        using f b False out None by (simp add: structLoop.simps [of decls prev])
      with IH [of "uint b" vs] s show ?thesis by simp
    next
      case (Some idx)
      let ?ft = "snd (decls ! idx)"
      from d Some out0 have
        "\<forall>cur. \<exists>x r.
           (if isPointer ?ft
            then Decode ?ft (if IsNil cur then VPtr (Some (zero (Elem ?ft))) else cur) out
            else Decode (TPtr ?ft) (VPtr (Some cur)) out) = Inr (x, r)"
        by (simp add: fieldDecodable_def Let_def)
      then obtain x r where
        dec: "(if isPointer ?ft
               then Decode ?ft (if IsNil (vs ! idx) then VPtr (Some (zero (Elem ?ft))) else vs ! idx) out
               else Decode (TPtr ?ft) (VPtr (Some (vs ! idx))) out) = Inr (x, r)"
        by blast
      have "structLoop decls prev (wireFields (f # fs)) vs
              = structLoop decls (uint b) (wireFields fs)
                  (vs[idx := (if isPointer ?ft then VPtr (Some x) else x)])"
        using f b False out Some dec
        by (simp add: structLoop.simps [of decls prev] Let_def split: if_splits)
      with IH [of "uint b" "vs[idx := (if isPointer ?ft then VPtr (Some x) else x)]"] s
      show ?thesis by simp
    qed
  qed
qed

lemma sorted_minus_one_iff:
  "sorted_wrt (<) (- 1 # wireIDs fs) \<longleftrightarrow> sorted_wrt (<) (wireIDs fs)"
proof -
  have "\<forall>x \<in> set (wireIDs fs). - 1 < x"
    by (auto simp: wireIDs_def intro: less_le_trans [of "- 1" 0])
  then show ?thesis by simp
qed

lemma decode_order:
  assumes "validFields fs" "list_all (fieldDecodable decls) fs"
    "int (length (wireFields fs)) \<le> MaxLen"
  shows "((\<exists>out. Unmarshal (structTLV (wireFields fs)) (TPtr (TStruct decls))
                   (VPtr (Some (VStruct vs))) = Inr out)
            \<longleftrightarrow> sorted_wrt (<) (wireIDs fs))
       \<and> (\<not> sorted_wrt (<) (wireIDs fs) \<longrightarrow>
            Unmarshal (structTLV (wireFields fs)) (TPtr (TStruct decls))
              (VPtr (Some (VStruct vs)))
              = Inl (Error ErrFieldOrder ''field ids not strictly increasing''))"
  using structLoop_order [OF assms(1,2), of "- 1" vs, unfolded sorted_minus_one_iff]
  by (auto simp: Unmarshal_structTLV [OF assms(3)])


lemma uint_word_fid: "0 \<le> k \<Longrightarrow> k < 0x80 \<Longrightarrow> uint (word_of_int k :: byte) = k"
  by (simp add: uint_word_of_int take_bit_int_eq_self)

lemma collectFields_fid:
  "fi \<in> set (collectFields decls vs) \<Longrightarrow> 0 \<le> fid fi \<and> fid fi < 0x80"
  by (induction decls vs rule: collectFields.induct)
     (auto split: option.splits if_splits rtag.splits elim!: ParseRelishTag.elims)

lemma encodeFields_wire:
  assumes "\<forall>fi \<in> set flds. 0 \<le> fid fi \<and> fid fi < 0x80"
    and "encodeFields flds = Inr content"
  shows "\<exists>fs. content = wireFields fs
            \<and> wireIDs fs = map fid (filter emitted flds)
            \<and> list_all (\<lambda>(b, tlv). b AND 0x80 = 0) fs
            \<and> list_all2 (\<lambda>(b, tlv) fi. b = word_of_int (fid fi)
                             \<and> encodeValue (ftype fi) (fvalue fi) = Inr tlv)
                  fs (filter emitted flds)"
  using assms
proof (induction flds arbitrary: content)
  case Nil
  then show ?case by (simp add: wireIDs_def)
next
  case (Cons fi flds)
  from Cons.prems(1) have r: "\<forall>fi \<in> set flds. 0 \<le> fid fi \<and> fid fi < 0x80"
    and k: "0 \<le> fid fi" "fid fi < 0x80" by simp_all
  show ?case
  proof (cases "emitted fi")
    case False
    with Cons.prems(2) have "encodeFields flds = Inr content"
      by (auto simp: emitted_def split: if_splits)
    from Cons.IH [OF r this] False show ?thesis by simp
  next
    case True
    with Cons.prems(2) obtain vb rb where
      vb: "encodeValue (ftype fi) (fvalue fi) = Inr vb" and
      rb: "encodeFields flds = Inr rb" and
      c: "content = word_of_int (fid fi) # vb @ rb"
      by (auto simp: emitted_def WriteType_def uint_fid [OF k] split: if_splits sum.splits)
    from Cons.IH [OF r rb] obtain fs where
      fs: "rb = wireFields fs" "wireIDs fs = map fid (filter emitted flds)"
          "list_all (\<lambda>(b, tlv). b AND 0x80 = 0) fs"
          "list_all2 (\<lambda>(b, tlv) fi. b = word_of_int (fid fi)
                             \<and> encodeValue (ftype fi) (fvalue fi) = Inr tlv)
                  fs (filter emitted flds)"
      by blast
    have "content = wireFields ((word_of_int (fid fi), vb) # fs)"
      using c fs(1) by simp
    moreover have "wireIDs ((word_of_int (fid fi), vb) # fs) = map fid (filter emitted (fi # flds))"
      using True fs(2) by (simp add: wireIDs_def uint_word_fid [OF k])
    moreover have "list_all (\<lambda>(b, tlv). b AND 0x80 = 0) ((word_of_int (fid fi), vb) # fs)"
      using fs(3) uint_fid [OF k] by simp
    moreover have "list_all2 (\<lambda>(b, tlv) fi. b = word_of_int (fid fi)
                             \<and> encodeValue (ftype fi) (fvalue fi) = Inr tlv)
                  ((word_of_int (fid fi), vb) # fs) (filter emitted (fi # flds))"
      using True fs(4) vb by simp
    ultimately show ?thesis by blast
  qed
qed

lemma distinct_map_sort_key:
  "distinct (map f (sort_key f xs)) = distinct (map f xs)"
  by (induction xs) (simp_all add: distinct_insort_key)

lemma strictly_sorted_emitted:
  assumes "distinct (map fid flds)"
  shows "sorted_wrt (<) (map fid (filter emitted (sort_key fid flds)))"
proof -
  have "sorted_wrt (<) (map fid (sort_key fid flds))"
    using assms by (simp add: strict_sorted_iff distinct_map_sort_key)
  then have "sorted_wrt (\<lambda>x y. fid x < fid y) (sort_key fid flds)"
    by (simp add: sorted_wrt_map)
  then have "sorted_wrt (\<lambda>x y. fid x < fid y) (filter emitted (sort_key fid flds))"
    by (rule sorted_wrt_filter)
  then show ?thesis by (simp add: sorted_wrt_map)
qed

lemma encodeValue_struct:
  "encodeValue (TStruct decls) (VStruct vs) = encodeStruct decls vs"
  by (simp add: encodeValue.simps)

lemma WriteStructTLV_Inr:
  "WriteStructTLV w = Inr out \<Longrightarrow> \<exists>content. w = Inr content \<and> out = structTLV content"
  by (auto simp: WriteStructTLV_def WriteType_def WriteLen_def structTLV_def
        split: sum.splits if_splits)

lemma WriteEnumTLV_Inr:
  "WriteEnumTLV vid w = Inr out \<Longrightarrow> \<exists>body. out = 0x12 # body"
  by (auto simp: WriteEnumTLV_def WriteType_def WriteLen_def Let_def
        split: sum.splits if_splits)

lemma encode_order:
  assumes "distinct (map fid (collectFields decls vs))"
    and "Marshal (TStruct decls) (VStruct vs) = Inr out"
  shows "(\<exists>body. out = 0x12 # body)
       \<or> (\<exists>fs. out = structTLV (wireFields fs)
              \<and> list_all2 (\<lambda>(b, tlv) fi. b = word_of_int (fid fi)
                               \<and> encodeValue (ftype fi) (fvalue fi) = Inr tlv)
                    fs (filter emitted (sort_key fid (collectFields decls vs)))
              \<and> wireIDs fs = map fid (filter emitted (sort_key fid (collectFields decls vs)))
              \<and> sorted_wrt (<) (wireIDs fs)
              \<and> list_all (\<lambda>(b, tlv). b AND 0x80 = 0) fs)"
proof -
  let ?flds = "collectFields decls vs"
  from assms(2) have e: "encodeStruct decls vs = Inr out"
    by (simp add: Marshal_def encodeValue_struct)
  then consider (enum) vid w where "WriteEnumTLV vid w = Inr out"
    | (struct) "WriteStructTLV (encodeFields (sort_key fid ?flds)) = Inr out"
    by (auto simp: encodeStruct.simps Let_def split: if_splits option.splits)
  then show ?thesis
  proof cases
    case enum
    from WriteEnumTLV_Inr [OF this] show ?thesis by blast
  next
    case struct
    from WriteStructTLV_Inr [OF this] obtain content where
      c: "encodeFields (sort_key fid ?flds) = Inr content" and o: "out = structTLV content"
      by blast
    have "\<forall>fi \<in> set (sort_key fid ?flds). 0 \<le> fid fi \<and> fid fi < 0x80"
      using collectFields_fid [of _ decls vs] by simp
    from encodeFields_wire [OF this c] obtain fs where
      fs: "content = wireFields fs" "wireIDs fs = map fid (filter emitted (sort_key fid ?flds))"
          "list_all (\<lambda>(b, tlv). b AND 0x80 = 0) fs"
          "list_all2 (\<lambda>(b, tlv) fi. b = word_of_int (fid fi)
                             \<and> encodeValue (ftype fi) (fvalue fi) = Inr tlv)
                  fs (filter emitted (sort_key fid ?flds))"
      by blast
    from strictly_sorted_emitted [OF assms(1)] fs(2) have "sorted_wrt (<) (wireIDs fs)" by simp
    with o fs show ?thesis by blast
  qed
qed

text \<open>
  Claim C2, as stated, fails on both sides.  The payload \<open>00 01 FF\<close> has the single
  field ID 0, so its IDs are strictly increasing, yet decoding it into a struct whose
  field 0 is a \<open>uint32\<close> fails (the value is a Bool).  And for a descriptor with two
  fields tagged 0 the encoder emits the field IDs 0, 0, which are not strictly
  increasing.
\<close>

theorem field_order_counterexample:
  "sorted_wrt (<) (wireIDs [(0x00, [0x01, 0xFF])])
   \<and> Unmarshal (structTLV (wireFields [(0x00, [0x01, 0xFF])]))
        (TPtr (TStruct [(Tag 0 False False, TUint32)])) (VPtr (Some (VStruct [VUint32 0])))
     = Inl (errors_New ''unexpected type id for u32'')
   \<and> Marshal (TStruct [(Tag 0 False False, TUint32), (Tag 0 False False, TUint32)])
        (VStruct [VUint32 1, VUint32 2])
     = Inr (structTLV (wireFields [(0x00, [0x04, 1, 0, 0, 0]), (0x00, [0x04, 2, 0, 0, 0])]))
   \<and> \<not> sorted_wrt (<) (wireIDs [(0x00, [0x04, 1, 0, 0, 0]), (0x00, [0x04, 2, 0, 0, 0])])"
  by (simp add: wireIDs_def structTLV_def codec_eval)


text \<open>
  Claim C2, amended.  Decoder: for every struct TLV whose payload is a sequence of
  fields with valid IDs and complete value TLVs, each decodable into the slot the
  target binds to its ID, the decode succeeds if and only if the field IDs on the wire
  are strictly increasing, and otherwise fails with \<open>FieldOrder\<close> (the loop starts from
  \<open>prev = -1\<close> and rejects an ID that is not above \<open>prev\<close>).  Encoder: whenever the tagged
  field IDs of the descriptor are pairwise distinct and \<open>Marshal\<close> succeeds, the output is
  an enum TLV, or it is the struct TLV around exactly the fields the encoder does not
  pass over, taken in the order of the sort: each with its own ID byte and the encoding
  of its own value, the IDs valid and strictly increasing.
\<close>

theorem field_order_law:
  "(validFields fs \<and> list_all (fieldDecodable decls) fs
      \<and> int (length (wireFields fs)) \<le> MaxLen \<longrightarrow>
      ((\<exists>out. Unmarshal (structTLV (wireFields fs)) (TPtr (TStruct decls))
                 (VPtr (Some (VStruct vs))) = Inr out)
         \<longleftrightarrow> sorted_wrt (<) (wireIDs fs))
      \<and> (\<not> sorted_wrt (<) (wireIDs fs) \<longrightarrow>
            Unmarshal (structTLV (wireFields fs)) (TPtr (TStruct decls))
              (VPtr (Some (VStruct vs)))
              = Inl (Error ErrFieldOrder ''field ids not strictly increasing'')))
   \<and> (distinct (map fid (collectFields edecls evs))
      \<and> Marshal (TStruct edecls) (VStruct evs) = Inr eout \<longrightarrow>
      (\<exists>body. eout = 0x12 # body)
      \<or> (\<exists>efs. eout = structTLV (wireFields efs)
              \<and> list_all2 (\<lambda>(b, tlv) fi. b = word_of_int (fid fi)
                               \<and> encodeValue (ftype fi) (fvalue fi) = Inr tlv)
                    efs (filter emitted (sort_key fid (collectFields edecls evs)))
              \<and> wireIDs efs = map fid (filter emitted (sort_key fid (collectFields edecls evs)))
              \<and> sorted_wrt (<) (wireIDs efs)
              \<and> list_all (\<lambda>(b, tlv). b AND 0x80 = 0) efs))"
  using decode_order [of fs decls vs] encode_order [of edecls evs eout] by blast

theorem field_order_law_witness:
  "Unmarshal [0x11, 0x18, 0x01, 0x04, 0x14, 0, 0, 0, 0x00, 0x04, 0x0A, 0, 0, 0]
      (TPtr (TStruct [(Tag 0 False False, TUint32), (Tag 1 False False, TUint32)]))
      (VPtr (Some (VStruct [VUint32 0, VUint32 0])))
     = Inl (Error ErrFieldOrder ''field ids not strictly increasing'')
   \<and> (\<exists>out. Unmarshal [0x11, 0x18, 0x00, 0x04, 0x0A, 0, 0, 0, 0x01, 0x04, 0x14, 0, 0, 0]
      (TPtr (TStruct [(Tag 0 False False, TUint32), (Tag 1 False False, TUint32)]))
      (VPtr (Some (VStruct [VUint32 0, VUint32 0]))) = Inr out)
   \<and> (\<exists>efs. Marshal (TStruct [(Tag 5 False False, TBool), (Tag 0 False False, TUint32)])
                (VStruct [VBool True, VUint32 42]) = Inr (structTLV (wireFields efs))
            \<and> wireIDs efs = [0, 5] \<and> sorted_wrt (<) (wireIDs efs))"
proof -
  let ?decls = "[(Tag 0 False False, TUint32), (Tag 1 False False, TUint32)]"
  let ?a = "[0x04, 0x0A, 0, 0, 0] :: bytes"
  let ?b = "[0x04, 0x14, 0, 0, 0] :: bytes"
  let ?vs = "[VUint32 0, VUint32 0]"
  have c: "completeTLV ?a" "completeTLV ?b"
    by (simp_all add: completeTLV_def codec_eval)
  have d: "fieldDecodable ?decls (0x00, ?a)" "fieldDecodable ?decls (0x01, ?b)"
    by (simp_all add: fieldDecodable_def codec_eval)
  have bad: "Unmarshal (structTLV (wireFields [(0x01, ?b), (0x00, ?a)])) (TPtr (TStruct ?decls))
               (VPtr (Some (VStruct ?vs)))
             = Inl (Error ErrFieldOrder ''field ids not strictly increasing'')"
    using field_order_law [of "[(0x01, ?b), (0x00, ?a)]" ?decls ?vs "[]" "[]" "[]"] c d
    by (simp add: validFields_def wireIDs_def MaxLen_def)
  have good: "\<exists>out. Unmarshal (structTLV (wireFields [(0x00, ?a), (0x01, ?b)]))
               (TPtr (TStruct ?decls)) (VPtr (Some (VStruct ?vs))) = Inr out"
    using field_order_law [of "[(0x00, ?a), (0x01, ?b)]" ?decls ?vs "[]" "[]" "[]"] c d
    by (simp add: validFields_def wireIDs_def MaxLen_def)
  let ?ed = "[(Tag 5 False False, TBool), (Tag 0 False False, TUint32)]"
  let ?ev = "[VBool True, VUint32 42]"
  have m: "Marshal (TStruct ?ed) (VStruct ?ev)
             = Inr [0x11, 0x12, 0x00, 0x04, 0x2A, 0, 0, 0, 0x05, 0x01, 0xFF]"
    by (simp add: codec_eval)
  have ids: "map fid (filter emitted (sort_key fid (collectFields ?ed ?ev))) = [0, 5]"
    by (simp add: emitted_def isPointer_def)
  have enc: "\<exists>efs. Marshal (TStruct ?ed) (VStruct ?ev) = Inr (structTLV (wireFields efs))
               \<and> wireIDs efs = [0, 5] \<and> sorted_wrt (<) (wireIDs efs)"
    using field_order_law [of "[]" "[]" "[]" ?ed ?ev
            "[0x11, 0x12, 0x00, 0x04, 0x2A, 0, 0, 0, 0x05, 0x01, 0xFF]"] m
    unfolding ids by auto
  have e: "structTLV (wireFields [(0x01, ?b), (0x00, ?a)])
             = [0x11, 0x18, 0x01, 0x04, 0x14, 0, 0, 0, 0x00, 0x04, 0x0A, 0, 0, 0]"
    "structTLV (wireFields [(0x00, ?a), (0x01, ?b)])
             = [0x11, 0x18, 0x00, 0x04, 0x0A, 0, 0, 0, 0x01, 0x04, 0x14, 0, 0, 0]"
    by (simp_all add: structTLV_def EncodeLen_def)
  from bad good enc show ?thesis unfolding e by blast
qed

text \<open>
  The hypothesis on the IDs is needed: for the descriptor with two fields tagged 0, the
  IDs of the fields the encoder writes, in the order it writes them, are 0, 0.
\<close>

lemma repeated_ids_emitted_in_place:
  "map fid (filter emitted (sort_key fid
      (collectFields [(Tag 0 False False, TUint32), (Tag 0 False False, TUint32)]
         [VUint32 1, VUint32 2]))) = [0, 0]
   \<and> \<not> (\<exists>efs. wireIDs efs = map fid (filter emitted (sort_key fid
          (collectFields [(Tag 0 False False, TUint32), (Tag 0 False False, TUint32)]
             [VUint32 1, VUint32 2])))
        \<and> sorted_wrt (<) (wireIDs efs))"
  by (simp add: emitted_def isPointer_def)


section \<open>Round trip through \<open>Marshal\<close> and \<open>Unmarshal\<close>\<close>

text \<open>
  The values the round trip is about: a bool, a \<open>uint32\<close>, or a string that is valid
  UTF-8 and whose length is a valid TLV length.
\<close>

definition supportedValue :: "gotype \<Rightarrow> goval \<Rightarrow> bool" where
  "supportedValue t x =
     (case x of
        VBool b \<Rightarrow> t = TBool
      | VUint32 w \<Rightarrow> t = TUint32
      | VString s \<Rightarrow> t = TString \<and> utf8_Valid s \<and> int (length s) \<le> MaxLen
      | _ \<Rightarrow> False)"

lemma Uint32_PutUint32: "Uint32 (PutUint32 w) = w"
  unfolding Uint32_def PutUint32_def
  apply (simp del: push_bit_of_Suc_0 push_bit_Suc)
  apply (rule bit_word_eqI)
  subgoal for n
    apply (simp add: bit_simps)
    apply (cases "n < 8"; cases "n < 16"; cases "n < 24"; simp)
      apply (cases "bit w n"; simp; arith)+
    done
  done

lemma bool_roundtrip:
  "encodeValue TBool (VBool b) = Inr [0x01, if b then 0xFF else 0x00]
   \<and> readTLVBytes ([0x01, if b then 0xFF else 0x00] @ rest)
       = Inr ([0x01, if b then 0xFF else 0x00], rest)
   \<and> (\<not> IsNil v \<longrightarrow>
        Decode (TPtr TBool) v ([0x01, if b then 0xFF else 0x00] @ rest) = Inr (VBool b, rest))"
  by (simp add: codec_eval)

lemma uint32_roundtrip:
  "encodeValue TUint32 (VUint32 w) = Inr (0x04 # PutUint32 w)
   \<and> readTLVBytes ((0x04 # PutUint32 w) @ rest) = Inr (0x04 # PutUint32 w, rest)
   \<and> (\<not> IsNil v \<longrightarrow>
        Decode (TPtr TUint32) v ((0x04 # PutUint32 w) @ rest) = Inr (VUint32 w, rest))"
proof -
  have l: "length (PutUint32 w) = 4" by (simp add: PutUint32_def)
  have rf: "io_ReadFull (PutUint32 w @ rest) 4 = Inr (PutUint32 w, rest)"
    using l by (simp add: io_ReadFull_def)
  have rf2: "ReadFull (PutUint32 w @ rest) 4 = Inr (PutUint32 w, rest)"
    using l by (simp add: ReadFull_def)
  have e: "encodeValue TUint32 (VUint32 w) = Inr (0x04 # PutUint32 w)"
    by (simp add: encodeValue.simps WriteU32TLV_def WriteFixedTLV_def WriteType_def)
  have r: "readTLVBytes ((0x04 # PutUint32 w) @ rest) = Inr (0x04 # PutUint32 w, rest)"
    using rf2 by (simp add: readTLVBytes_def ReadType_Cons FixedSize_def)
  have d: "\<not> IsNil v \<longrightarrow>
        Decode (TPtr TUint32) v ((0x04 # PutUint32 w) @ rest) = Inr (VUint32 w, rest)"
    using rf by (simp add: Decode.simps isPointer_def ReadU32TLV_def ReadType_Cons
                   Uint32_PutUint32)
  from e r d show ?thesis by blast
qed

lemma string_roundtrip:
  assumes "utf8_Valid s" "int (length s) \<le> MaxLen"
  shows "encodeValue TString (VString s) = Inr (0x0E # EncodeLen (int (length s)) @ s)
   \<and> readTLVBytes ((0x0E # EncodeLen (int (length s)) @ s) @ rest)
       = Inr (0x0E # EncodeLen (int (length s)) @ s, rest)
   \<and> (\<not> IsNil v \<longrightarrow>
        Decode (TPtr TString) v ((0x0E # EncodeLen (int (length s)) @ s) @ rest)
          = Inr (VString s, rest))"
proof -
  let ?n = "int (length s)"
  have n0: "0 \<le> ?n" by simp
  note rl = ReadLen_EncodeLen [OF n0 assms(2), of "s @ rest"]
  have e: "encodeValue TString (VString s) = Inr (0x0E # EncodeLen ?n @ s)"
    using assms by (simp add: encodeValue.simps WriteStringTLV_def WriteType_def
                      WriteLen_ok [OF n0 assms(2)])
  have tk: "take (nat (if ?n \<le> 127 then 1 else 4))
              (EncodeLen ?n @ replicate (4 - length (EncodeLen ?n)) 0) = EncodeLen ?n"
    by (simp add: length_EncodeLen)
  have r: "readTLVBytes ((0x0E # EncodeLen ?n @ s) @ rest)
             = Inr (0x0E # EncodeLen ?n @ s, rest)"
  proof (cases "s = []")
    case True
    then show ?thesis
      using rl tk by (simp add: readTLVBytes_def ReadType_Cons FixedSize_def Let_def)
  next
    case False
    then show ?thesis
      using rl tk
      by (simp add: readTLVBytes_def ReadType_Cons FixedSize_def Let_def ReadFull_exact)
  qed
  have d: "\<not> IsNil v \<longrightarrow>
        Decode (TPtr TString) v ((0x0E # EncodeLen ?n @ s) @ rest) = Inr (VString s, rest)"
  proof (cases "s = []")
    case True
    then show ?thesis
      using rl by (simp add: Decode.simps isPointer_def ReadStringTLV_def ReadType_Cons)
  next
    case False
    then show ?thesis
      using rl assms(1)
      by (simp add: Decode.simps isPointer_def ReadStringTLV_def ReadType_Cons ReadFull_exact)
  qed
  from e r d show ?thesis by blast
qed

lemma prim_roundtrip:
  assumes "supportedValue t x"
  shows "\<exists>tlv. encodeValue t x = Inr tlv
           \<and> (\<forall>rest. readTLVBytes (tlv @ rest) = Inr (tlv, rest))
           \<and> (\<forall>v rest. \<not> IsNil v \<longrightarrow> Decode (TPtr t) v (tlv @ rest) = Inr (x, rest))"
proof (cases x)
  case (VBool b)
  with assms have t: "t = TBool" by (simp add: supportedValue_def)
  show ?thesis unfolding t VBool using bool_roundtrip [of b] by blast
next
  case (VUint32 w)
  with assms have t: "t = TUint32" by (simp add: supportedValue_def)
  show ?thesis unfolding t VUint32 using uint32_roundtrip [of w] by blast
next
  case (VString s)
  with assms have t: "t = TString" and u: "utf8_Valid s" and l: "int (length s) \<le> MaxLen"
    by (simp_all add: supportedValue_def)
  show ?thesis unfolding t VString using string_roundtrip [OF u l] by blast
qed (use assms in \<open>simp_all add: supportedValue_def\<close>)

lemma supportedValue_not_pointer: "supportedValue t x \<Longrightarrow> \<not> isPointer t"
  by (cases x) (auto simp: supportedValue_def isPointer_def)


text \<open>The field IDs a descriptor declares, in declaration order.\<close>

fun fieldIDs :: "(rtag \<times> gotype) list \<Rightarrow> int list" where
  "fieldIDs [] = []"
| "fieldIDs ((tag, t) # decls) =
     (case ParseRelishTag tag of
        None \<Rightarrow> fieldIDs decls
      | Some (i, opt, omit) \<Rightarrow> i # fieldIDs decls)"

lemma ParseRelishTag_range:
  "ParseRelishTag tag = Some (i, opt, omit) \<Longrightarrow> 0 \<le> i \<and> i < 0x80"
  by (cases tag) (auto split: if_splits)

lemma fieldIDs_range: "i \<in> set (fieldIDs decls) \<Longrightarrow> 0 \<le> i \<and> i < 0x80"
  by (induction decls rule: fieldIDs.induct)
     (auto split: option.splits dest: ParseRelishTag_range)

lemma fieldIDs_nth:
  "idx < length decls \<Longrightarrow> ParseRelishTag (fst (decls ! idx)) = Some (i, opt, omit)
   \<Longrightarrow> i \<in> set (fieldIDs decls)"
proof (induction decls arbitrary: idx rule: fieldIDs.induct)
  case 1
  then show ?case by simp
next
  case (2 tag t decls)
  then show ?case by (cases idx) (auto split: option.splits)
qed

lemma idToIndexFrom_notin:
  "i \<notin> set (fieldIDs decls) \<Longrightarrow> idToIndexFrom k decls m i = m i"
  by (induction k decls m rule: idToIndexFrom.induct) (auto split: option.splits)

lemma idToIndexFrom_distinct:
  "distinct (fieldIDs decls) \<Longrightarrow> idx < length decls
   \<Longrightarrow> ParseRelishTag (fst (decls ! idx)) = Some (i, opt, omit)
   \<Longrightarrow> idToIndexFrom k decls m i = Some (k + idx)"
proof (induction k decls m arbitrary: idx rule: idToIndexFrom.induct)
  case (1 k m)
  then show ?case by simp
next
  case (2 k tag t decls m)
  show ?case
  proof (cases idx)
    case 0
    with "2.prems" have p: "ParseRelishTag tag = Some (i, opt, omit)" by simp
    with "2.prems"(1) have "i \<notin> set (fieldIDs decls)" by simp
    from idToIndexFrom_notin [OF this] p 0 show ?thesis by simp
  next
    case (Suc j)
    with "2.prems" have j: "j < length decls"
      and pj: "ParseRelishTag (fst (decls ! j)) = Some (i, opt, omit)" by simp_all
    from "2.prems"(1) have d: "distinct (fieldIDs decls)" by (auto split: option.splits)
    from "2.IH" [OF d j pj] Suc show ?thesis by simp
  qed
qed

lemma idToIndex_distinct:
  "distinct (fieldIDs decls) \<Longrightarrow> idx < length decls
   \<Longrightarrow> ParseRelishTag (fst (decls ! idx)) = Some (i, opt, omit)
   \<Longrightarrow> idToIndex decls i = Some idx"
  using idToIndexFrom_distinct [of decls idx i opt omit 0 Map.empty]
  by (simp add: idToIndex_def)

lemma word_of_int_fid_inj:
  assumes "0 \<le> a" "a < 0x80" "0 \<le> b" "b < 0x80" "(word_of_int a :: byte) = word_of_int b"
  shows "a = b"
proof -
  have "a = uint (word_of_int a :: byte)" by (rule uint_word_fid [OF assms(1,2), symmetric])
  also have "\<dots> = uint (word_of_int b :: byte)" by (simp only: assms(5))
  also have "\<dots> = b" by (rule uint_word_fid [OF assms(3,4)])
  finally show ?thesis .
qed

lemma findVariantFrom_distinct:
  "distinct (fieldIDs decls) \<Longrightarrow> idx < length decls
   \<Longrightarrow> ParseRelishTag (fst (decls ! idx)) = Some (i, opt, omit)
   \<Longrightarrow> findVariantFrom k decls (word_of_int i) = Some (k + idx)"
proof (induction k decls "word_of_int i :: byte" arbitrary: idx rule: findVariantFrom.induct)
  case (1 k)
  then show ?case by simp
next
  case (2 k tag t decls)
  show ?case
  proof (cases idx)
    case 0
    with "2.prems" show ?thesis by simp
  next
    case (Suc j)
    with "2.prems" have j: "j < length decls"
      and pj: "ParseRelishTag (fst (decls ! j)) = Some (i, opt, omit)" by simp_all
    from "2.prems"(1) have d: "distinct (fieldIDs decls)" by (auto split: option.splits)
    from fieldIDs_nth [OF j pj] have mem: "i \<in> set (fieldIDs decls)" .
    note ri = ParseRelishTag_range [OF pj]
    show ?thesis
    proof (cases "ParseRelishTag tag")
      case None
      with "2.hyps"(1) [OF None d j pj] Suc show ?thesis by simp
    next
      case (Some p)
      obtain i' o' e' where p: "p = (i', o', e')" by (cases p)
      with Some "2.prems"(1) mem have ne: "i' \<noteq> i" by auto
      from Some p have ri': "0 \<le> i' \<and> i' < 0x80" by (auto dest: ParseRelishTag_range)
      have nw: "(word_of_int i' :: byte) \<noteq> word_of_int i"
        using word_of_int_fid_inj [of i' i] ri ri' ne by auto
      from "2.hyps"(2) [OF Some p [symmetric] _ nw d j pj] Some p nw Suc
      show ?thesis by simp
    qed
  qed
qed

lemma collectFields_nth:
  "fi \<in> set (collectFields decls vs) \<Longrightarrow>
   \<exists>idx. idx < length decls \<and> idx < length vs
       \<and> ParseRelishTag (fst (decls ! idx)) = Some (fid fi, optional fi, omitempty fi)
       \<and> ftype fi = snd (decls ! idx) \<and> fvalue fi = vs ! idx"
proof (induction decls vs rule: collectFields.induct)
  case (1 tag t decls v vs)
  show ?case
  proof (cases "fi \<in> set (collectFields decls vs)")
    case True
    from "1.IH"(1) "1.IH"(2) True
    have "\<exists>idx. idx < length decls \<and> idx < length vs
       \<and> ParseRelishTag (fst (decls ! idx)) = Some (fid fi, optional fi, omitempty fi)
       \<and> ftype fi = snd (decls ! idx) \<and> fvalue fi = vs ! idx"
      by (cases "ParseRelishTag tag") auto
    then obtain idx where "idx < length decls \<and> idx < length vs
       \<and> ParseRelishTag (fst (decls ! idx)) = Some (fid fi, optional fi, omitempty fi)
       \<and> ftype fi = snd (decls ! idx) \<and> fvalue fi = vs ! idx" by blast
    then have "Suc idx < length ((tag, t) # decls) \<and> Suc idx < length (v # vs)
       \<and> ParseRelishTag (fst (((tag, t) # decls) ! Suc idx))
           = Some (fid fi, optional fi, omitempty fi)
       \<and> ftype fi = snd (((tag, t) # decls) ! Suc idx) \<and> fvalue fi = (v # vs) ! Suc idx"
      by simp
    then show ?thesis by blast
  next
    case False
    with "1.prems" have "0 < length ((tag, t) # decls) \<and> 0 < length (v # vs)
       \<and> ParseRelishTag (fst (((tag, t) # decls) ! 0))
           = Some (fid fi, optional fi, omitempty fi)
       \<and> ftype fi = snd (((tag, t) # decls) ! 0) \<and> fvalue fi = (v # vs) ! 0"
      by (auto split: option.splits)
    then show ?thesis by blast
  qed
qed simp_all

lemma collectFields_mem:
  "idx < length decls \<Longrightarrow> idx < length vs
   \<Longrightarrow> ParseRelishTag (fst (decls ! idx)) = Some (i, opt, omit)
   \<Longrightarrow> \<lparr>fid = i, optional = opt, omitempty = omit, ftype = snd (decls ! idx),
          fvalue = vs ! idx\<rparr> \<in> set (collectFields decls vs)"
proof (induction decls vs arbitrary: idx rule: collectFields.induct)
  case (1 tag t decls v vs)
  then show ?case by (cases idx) (auto split: option.splits)
qed simp_all

lemma map_fid_collectFields:
  "length decls = length vs \<Longrightarrow> map fid (collectFields decls vs) = fieldIDs decls"
  by (induction decls vs rule: collectFields.induct) (auto split: option.splits)


text \<open>
  A field of a struct in the scope of the round trip: without a usable tag it holds the
  zero of its type (it is not encoded, so it can only come back as zero); with the
  \<open>optional\<close> flag it is a pointer, nil or to a supported value; otherwise it is a
  supported value.
\<close>

definition supportedField :: "rtag \<times> gotype \<Rightarrow> goval \<Rightarrow> bool" where
  "supportedField d v =
     (case d of (tag, t) \<Rightarrow>
        (case ParseRelishTag tag of
           None \<Rightarrow> v = zero t
         | Some (i, opt, omit) \<Rightarrow>
             if opt then
               (case t of
                  TPtr te \<Rightarrow>
                    (case v of
                       VPtr p \<Rightarrow> (case p of None \<Rightarrow> True | Some x \<Rightarrow> supportedValue te x)
                     | _ \<Rightarrow> False)
                | _ \<Rightarrow> False)
             else supportedValue t v))"

text \<open>
  The staged field bytes of the struct, where they can be staged, fit the length range
  of a TLV.
\<close>

definition fitsLength :: "(rtag \<times> gotype) list \<Rightarrow> goval list \<Rightarrow> bool" where
  "fitsLength decls vs =
     (case encodeFields (sort_key fid (collectFields decls vs)) of
        Inl e \<Rightarrow> True
      | Inr content \<Rightarrow> int (length content) \<le> MaxLen)"

text \<open>
  Vocabulary of the proof: the index the decoder's \<open>idToIndex\<close> map gives a collected
  field; what holds of every field collected from a struct in scope; and the decode of
  one value into a slot as the struct loop performs it, giving the slot's new value.
\<close>

definition slot :: "(rtag \<times> gotype) list \<Rightarrow> fieldInfo \<Rightarrow> nat" where
  "slot decls fi = the (idToIndex decls (fid fi))"

definition goodField :: "(rtag \<times> gotype) list \<Rightarrow> goval list \<Rightarrow> fieldInfo \<Rightarrow> bool" where
  "goodField decls vs fi =
     (slot decls fi < length vs
      \<and> idToIndex decls (fid fi) = Some (slot decls fi)
      \<and> findVariantFrom 0 decls (word_of_int (fid fi)) = Some (slot decls fi)
      \<and> ftype fi = snd (decls ! slot decls fi)
      \<and> fvalue fi = vs ! slot decls fi
      \<and> 0 \<le> fid fi \<and> fid fi < 0x80
      \<and> (if optional fi
         then (\<exists>te. ftype fi = TPtr te
                 \<and> (fvalue fi = VPtr None
                    \<or> (\<exists>x. fvalue fi = VPtr (Some x) \<and> supportedValue te x)))
         else supportedValue (ftype fi) (fvalue fi)))"

definition decodeSlot :: "gotype \<Rightarrow> goval \<Rightarrow> bytes \<Rightarrow> error + (goval \<times> reader)" where
  "decodeSlot ft f tlv =
     (if isPointer ft then
        (case Decode ft (if IsNil f then VPtr (Some (zero (Elem ft))) else f) tlv of
           Inl e \<Rightarrow> Inl e
         | Inr (x, r) \<Rightarrow> Inr (VPtr (Some x), r))
      else Decode (TPtr ft) (VPtr (Some f)) tlv)"

lemma collectFields_good:
  assumes "list_all2 supportedField decls vs" "distinct (fieldIDs decls)"
    and "fi \<in> set (collectFields decls vs)"
  shows "goodField decls vs fi"
proof -
  from collectFields_nth [OF assms(3)] obtain idx where
    i: "idx < length decls" "idx < length vs"
    and p: "ParseRelishTag (fst (decls ! idx)) = Some (fid fi, optional fi, omitempty fi)"
    and t: "ftype fi = snd (decls ! idx)" and v: "fvalue fi = vs ! idx"
    by blast
  from idToIndex_distinct [OF assms(2) i(1) p] have m: "idToIndex decls (fid fi) = Some idx" .
  then have sl: "slot decls fi = idx" by (simp add: slot_def)
  from findVariantFrom_distinct [OF assms(2) i(1) p, of 0]
  have fv: "findVariantFrom 0 decls (word_of_int (fid fi)) = Some idx" by simp
  from list_all2_nthD [OF assms(1) i(1)] have sf: "supportedField (decls ! idx) (vs ! idx)" .
  have shape: "if optional fi
         then (\<exists>te. ftype fi = TPtr te
                 \<and> (fvalue fi = VPtr None
                    \<or> (\<exists>x. fvalue fi = VPtr (Some x) \<and> supportedValue te x)))
         else supportedValue (ftype fi) (fvalue fi)"
    using sf p t v
    by (cases "decls ! idx")
       (auto simp: supportedField_def split: gotype.splits goval.splits option.splits)
  from i(2) m fv t v ParseRelishTag_range [OF p] shape show ?thesis
    unfolding goodField_def sl by simp
qed

lemma encodeValue_pointer:
  "\<not> isPointer te \<Longrightarrow> encodeValue (TPtr te) (VPtr (Some x)) = encodeValue te x"
  by (simp add: encodeValue.simps [of "TPtr te"] encodeValue.simps [of te] deref_nonpointer)

lemma goodField_shape:
  "goodField decls vs fi \<Longrightarrow>
   (if optional fi
    then (\<exists>te. ftype fi = TPtr te
            \<and> (fvalue fi = VPtr None
               \<or> (\<exists>x. fvalue fi = VPtr (Some x) \<and> supportedValue te x)))
    else supportedValue (ftype fi) (fvalue fi))"
  unfolding goodField_def by (elim conjE)

lemma field_roundtrip:
  assumes "goodField decls vs fi" "emitted fi"
  shows "\<exists>tlv. encodeValue (ftype fi) (fvalue fi) = Inr tlv
           \<and> (\<forall>rest. readTLVBytes (tlv @ rest) = Inr (tlv, rest))
           \<and> (\<forall>f rest. decodeSlot (ftype fi) f (tlv @ rest) = Inr (fvalue fi, rest))"
proof (cases "optional fi")
  case True
  with goodField_shape [OF assms(1)] have "\<exists>te. ftype fi = TPtr te
      \<and> (fvalue fi = VPtr None \<or> (\<exists>x. fvalue fi = VPtr (Some x) \<and> supportedValue te x))"
    by simp
  then obtain te where te: "ftype fi = TPtr te"
    and sh: "fvalue fi = VPtr None \<or> (\<exists>x. fvalue fi = VPtr (Some x) \<and> supportedValue te x)"
    by blast
  from True assms(2) te have "\<not> IsNil (fvalue fi)"
    by (simp add: emitted_def isPointer_def)
  with sh obtain x where x: "fvalue fi = VPtr (Some x)" and sx: "supportedValue te x"
    by (auto simp: IsNil_def)
  from prim_roundtrip [OF sx] obtain tlv where
    e: "encodeValue te x = Inr tlv"
    and r: "\<forall>rest. readTLVBytes (tlv @ rest) = Inr (tlv, rest)"
    and d: "\<forall>v rest. \<not> IsNil v \<longrightarrow> Decode (TPtr te) v (tlv @ rest) = Inr (x, rest)"
    by blast
  have e': "encodeValue (ftype fi) (fvalue fi) = Inr tlv"
    using e supportedValue_not_pointer [OF sx] by (simp add: te x encodeValue_pointer)
  have "decodeSlot (ftype fi) f (tlv @ rest) = Inr (fvalue fi, rest)" for f rest
  proof -
    have "\<not> IsNil (if IsNil f then VPtr (Some (zero (Elem (TPtr te)))) else f)"
      by (simp add: IsNil_def)
    with d have "Decode (TPtr te) (if IsNil f then VPtr (Some (zero (Elem (TPtr te)))) else f)
                   (tlv @ rest) = Inr (x, rest)" by blast
    then show ?thesis by (simp add: decodeSlot_def te x isPointer_def)
  qed
  with e' r show ?thesis by blast
next
  case False
  with goodField_shape [OF assms(1)] have sv: "supportedValue (ftype fi) (fvalue fi)"
    by simp
  from prim_roundtrip [OF sv] obtain tlv where
    e: "encodeValue (ftype fi) (fvalue fi) = Inr tlv"
    and r: "\<forall>rest. readTLVBytes (tlv @ rest) = Inr (tlv, rest)"
    and d: "\<forall>v rest. \<not> IsNil v \<longrightarrow>
              Decode (TPtr (ftype fi)) v (tlv @ rest) = Inr (fvalue fi, rest)"
    by blast
  have "decodeSlot (ftype fi) f (tlv @ rest) = Inr (fvalue fi, rest)" for f rest
    using d supportedValue_not_pointer [OF sv] by (simp add: decodeSlot_def IsNil_def)
  with e r show ?thesis by blast
qed

lemma structLoop_step:
  assumes "b AND 0x80 = 0" "prev < uint b" "readTLVBytes r = Inr (tlv, r')"
    and "idToIndex decls (uint b) = Some idx"
  shows "structLoop decls prev (b # r) dst
         = (case decodeSlot (snd (decls ! idx)) (dst ! idx) tlv of
              Inl e \<Rightarrow> Inl e
            | Inr (x, rest) \<Rightarrow> structLoop decls (uint b) r' (dst[idx := x]))"
  using assms
  by (simp add: structLoop.simps [of decls prev] decodeSlot_def Let_def split: sum.splits)

lemma encode_decode_loop:
  assumes "\<forall>fi \<in> set fl. goodField decls vs fi"
    and "sorted_wrt (<) (prev # map fid (filter emitted fl))"
  shows "\<exists>content. encodeFields fl = Inr content
           \<and> structLoop decls prev content dst
               = Inr (foldl (\<lambda>d fi. d[slot decls fi := fvalue fi]) dst (filter emitted fl))"
  using assms
proof (induction fl arbitrary: prev dst)
  case Nil
  then show ?case by (simp add: structLoop.simps)
next
  case (Cons fi fl)
  from Cons.prems(1) have g: "goodField decls vs fi" and gs: "\<forall>fi \<in> set fl. goodField decls vs fi"
    by simp_all
  show ?case
  proof (cases "emitted fi")
    case False
    with Cons.prems(2) have s: "sorted_wrt (<) (prev # map fid (filter emitted fl))" by simp
    from False have skip: "encodeFields (fi # fl) = encodeFields fl"
      by (auto simp: emitted_def)
    from Cons.IH [OF gs s, of dst] False skip show ?thesis by simp
  next
    case True
    from g have k: "0 \<le> fid fi" "fid fi < 0x80"
      and m: "idToIndex decls (fid fi) = Some (slot decls fi)"
      and t: "ftype fi = snd (decls ! slot decls fi)"
      by (simp_all add: goodField_def)
    from True Cons.prems(2) have lt: "prev < fid fi"
      and s: "sorted_wrt (<) (fid fi # map fid (filter emitted fl))" by auto
    from field_roundtrip [OF g True] obtain tlv where
      e: "encodeValue (ftype fi) (fvalue fi) = Inr tlv"
      and r: "\<And>rest. readTLVBytes (tlv @ rest) = Inr (tlv, rest)"
      and d: "\<And>f rest. decodeSlot (ftype fi) f (tlv @ rest) = Inr (fvalue fi, rest)"
      by blast
    from Cons.IH [OF gs s, of "dst[slot decls fi := fvalue fi]"] obtain rb where
      rb: "encodeFields fl = Inr rb"
      and lp: "structLoop decls (fid fi) rb (dst[slot decls fi := fvalue fi])
               = Inr (foldl (\<lambda>d fi. d[slot decls fi := fvalue fi])
                        (dst[slot decls fi := fvalue fi]) (filter emitted fl))"
      by blast
    let ?b = "word_of_int (fid fi) :: byte"
    have ub: "uint ?b = fid fi" by (rule uint_word_fid [OF k])
    have enc: "encodeFields (fi # fl) = Inr (?b # tlv @ rb)"
      using True e rb uint_fid [OF k] by (auto simp: emitted_def WriteType_def)
    have "structLoop decls prev (?b # tlv @ rb) dst
            = (case decodeSlot (snd (decls ! slot decls fi)) (dst ! slot decls fi) tlv of
                 Inl e \<Rightarrow> Inl e
               | Inr (x, rest) \<Rightarrow> structLoop decls (uint ?b) rb (dst[slot decls fi := x]))"
      by (rule structLoop_step [OF uint_fid [OF k] _ r]) (simp_all add: ub lt m)
    also have "\<dots> = structLoop decls (fid fi) rb (dst[slot decls fi := fvalue fi])"
      using d [of "dst ! slot decls fi" "[]"] by (simp add: t [symmetric] ub)
    finally have "structLoop decls prev (?b # tlv @ rb) dst
            = Inr (foldl (\<lambda>d fi. d[slot decls fi := fvalue fi]) dst (filter emitted (fi # fl)))"
      using lp True by simp
    with enc show ?thesis by blast
  qed
qed

lemma foldl_slots_length:
  "length (foldl (\<lambda>d fi. d[slot decls fi := fvalue fi]) dst fl) = length dst"
  by (induction fl arbitrary: dst) simp_all

lemma foldl_slots_nth:
  assumes "\<forall>fi \<in> set fl. fvalue fi = vs ! slot decls fi" "j < length dst"
  shows "(foldl (\<lambda>d fi. d[slot decls fi := fvalue fi]) dst fl) ! j
         = (if j \<in> slot decls ` set fl then vs ! j else dst ! j)"
  using assms
proof (induction fl arbitrary: dst)
  case Nil
  then show ?case by simp
next
  case (Cons fi fl)
  from Cons.prems have a: "\<forall>fi \<in> set fl. fvalue fi = vs ! slot decls fi"
    and v: "fvalue fi = vs ! slot decls fi"
    and j: "j < length (dst[slot decls fi := fvalue fi])" by simp_all
  from Cons.IH [OF a j] Cons.prems(2) v show ?case
    by (auto simp: nth_list_update)
qed

lemma WriteStructTLV_ok:
  "int (length content) \<le> MaxLen \<Longrightarrow> WriteStructTLV (Inr content) = Inr (structTLV content)"
  by (simp add: WriteStructTLV_def WriteType_def WriteLen_ok structTLV_def)

lemma WriteEnumTLV_ok:
  assumes "vid AND 0x80 = 0" "int (length tlv) + 1 \<le> MaxLen"
  shows "WriteEnumTLV vid (Inr tlv)
         = Inr (0x12 # EncodeLen (int (length tlv) + 1) @ vid # tlv)"
proof -
  have n0: "0 \<le> int (length tlv) + 1" by simp
  show ?thesis
    using assms(1) WriteLen_ok [OF n0 assms(2)]
    by (simp add: WriteEnumTLV_def WriteType_def Let_def add.commute)
qed

lemma Decode_enum:
  "Decode (TPtr (TStruct decls)) (VPtr (Some (VStruct vs))) (0x12 # r)
   = (case decodeEnumInto decls vs r of
        Inl e \<Rightarrow> Inl e
      | Inr (vs', r2) \<Rightarrow> Inr (VStruct vs', r2))"
  by (simp add: Decode.simps isPointer_def IsNil_def ReadType_Cons structFields_def)

lemma decodeEnumInto_frame:
  assumes "int (length tlv) + 1 \<le> MaxLen"
    and "findVariantFrom 0 decls vid = Some idx"
    and "isPointer (snd (decls ! idx))"
    and "Decode (snd (decls ! idx))
           (if IsNil (dst ! idx) then VPtr (Some (zero (Elem (snd (decls ! idx)))))
            else dst ! idx) tlv = Inr (x, [])"
  shows "decodeEnumInto decls dst (EncodeLen (int (length tlv) + 1) @ vid # tlv)
         = Inr (dst[idx := VPtr (Some x)], [])"
proof -
  have n0: "0 \<le> int (length tlv) + 1" by simp
  note rl = ReadLen_EncodeLen [OF n0 assms(1), of "vid # tlv"]
  have rf: "ReadFull (vid # tlv) (nat (int (length tlv) + 1)) = Inr (vid # tlv, [])"
    using ReadFull_exact [of "vid # tlv" "Suc (length tlv)" "[]"]
    by (simp add: nat_add_distrib)
  show ?thesis
    using rl rf assms(2-4) by (simp add: decodeEnumInto.simps Let_def)
qed

lemma filter_all:
  assumes "length (filter P xs) = length xs"
  shows "\<forall>x \<in> set xs. P x"
proof -
  from sum_length_filter_compl [of P xs] assms
  have "length (filter (\<lambda>x. \<not> P x) xs) = 0" by linarith
  then have "filter (\<lambda>x. \<not> P x) xs = []" by simp
  then show ?thesis by (simp add: filter_empty_conv)
qed

lemma filter_single:
  assumes "length (filter P xs) = 1" "a \<in> set xs" "P a" "b \<in> set xs" "P b"
  shows "a = b"
proof -
  from assms(1) obtain c where c: "filter P xs = [c]"
    by (cases "filter P xs") auto
  from assms(2,3) have "a \<in> set (filter P xs)" by simp
  moreover from assms(4,5) have "b \<in> set (filter P xs)" by simp
  ultimately show ?thesis unfolding c by simp
qed

lemma encodeFields_contains:
  "encodeFields fl = Inr content \<Longrightarrow> fi \<in> set fl \<Longrightarrow> emitted fi
   \<Longrightarrow> encodeValue (ftype fi) (fvalue fi) = Inr tlv
   \<Longrightarrow> length tlv + 1 \<le> length content"
proof (induction fl arbitrary: content)
  case Nil
  then show ?case by simp
next
  case (Cons f fl)
  show ?case
  proof (cases "emitted f")
    case False
    with Cons.prems have "encodeFields fl = Inr content" "fi \<in> set fl"
      by (auto simp: emitted_def split: if_splits)
    from Cons.IH [OF this Cons.prems(3,4)] show ?thesis .
  next
    case True
    with Cons.prems(1) obtain ib vb rb where
      p: "WriteType (word_of_int (fid f)) = Inr ib"
         "encodeValue (ftype f) (fvalue f) = Inr vb"
         "encodeFields fl = Inr rb" "content = ib @ vb @ rb"
      by (auto simp: emitted_def split: if_splits sum.splits)
    from p(1) have ib: "length ib = 1" by (auto simp: WriteType_def split: if_splits)
    show ?thesis
    proof (cases "fi = f")
      case True
      with p(2) Cons.prems(4) have "vb = tlv" by simp
      with p(4) ib show ?thesis by simp
    next
      case False
      with Cons.prems(2) have "fi \<in> set fl" by simp
      from Cons.IH [OF p(3) this Cons.prems(3,4)] p(4) show ?thesis by simp
    qed
  qed
qed

lemma not_emitted_zero:
  assumes "goodField decls vs fi" "\<not> emitted fi"
  shows "fvalue fi = zero (ftype fi)"
proof (cases "optional fi")
  case True
  with goodField_shape [OF assms(1)] obtain te where te: "ftype fi = TPtr te" by auto
  from assms(2) te have "IsNil (fvalue fi)"
    by (auto simp: emitted_def)
  then show ?thesis by (simp add: te IsNil_def)
next
  case False
  with goodField_shape [OF assms(1)] have sv: "supportedValue (ftype fi) (fvalue fi)" by simp
  from assms(2) False have z: "isZeroValue (ftype fi) (fvalue fi)" by (auto simp: emitted_def)
  from sv z show ?thesis
    by (cases "fvalue fi") (auto simp: supportedValue_def)
qed

lemma zero_fields_nth:
  "j < length decls \<Longrightarrow> map (\<lambda>(tag, t). zero t) decls ! j = zero (snd (decls ! j))"
  by (simp add: case_prod_beta)

lemma struct_result:
  assumes sup: "list_all2 supportedField decls vs" and dist: "distinct (fieldIDs decls)"
  shows "foldl (\<lambda>d fi. d[slot decls fi := fvalue fi]) (map (\<lambda>(tag, t). zero t) decls)
           (filter emitted (sort_key fid (collectFields decls vs))) = vs"
    (is "?res = vs")
proof (rule nth_equalityI)
  from sup have len: "length decls = length vs" by (rule list_all2_lengthD)
  let ?fl = "filter emitted (sort_key fid (collectFields decls vs))"
  show "length ?res = length vs" by (simp add: foldl_slots_length len)
  fix j assume "j < length ?res"
  then have j: "j < length decls" by (simp add: foldl_slots_length)
  have good: "\<forall>fi \<in> set ?fl. goodField decls vs fi"
    using collectFields_good [OF sup dist] by simp
  then have vals: "\<forall>fi \<in> set ?fl. fvalue fi = vs ! slot decls fi"
    by (simp add: goodField_def)
  have nth: "?res ! j = (if j \<in> slot decls ` set ?fl then vs ! j
                          else map (\<lambda>(tag, t). zero t) decls ! j)"
    by (rule foldl_slots_nth [OF vals]) (simp add: j)
  show "?res ! j = vs ! j"
  proof (cases "j \<in> slot decls ` set ?fl")
    case True
    with nth show ?thesis by simp
  next
    case False
    with nth have r: "?res ! j = zero (snd (decls ! j))" by (simp add: zero_fields_nth [OF j])
    from list_all2_nthD [OF sup j] have sf: "supportedField (decls ! j) (vs ! j)" .
    show ?thesis
    proof (cases "ParseRelishTag (fst (decls ! j))")
      case None
      with sf have "vs ! j = zero (snd (decls ! j))"
        by (cases "decls ! j") (simp add: supportedField_def)
      with r show ?thesis by simp
    next
      case (Some p)
      obtain i opt omit where p: "p = (i, opt, omit)" by (cases p)
      let ?fj = "\<lparr>fid = i, optional = opt, omitempty = omit, ftype = snd (decls ! j),
                   fvalue = vs ! j\<rparr>"
      from j len have jv: "j < length vs" by simp
      from Some p have pj: "ParseRelishTag (fst (decls ! j)) = Some (i, opt, omit)" by simp
      from collectFields_mem [OF j jv pj] have mem: "?fj \<in> set (collectFields decls vs)" .
      from collectFields_good [OF sup dist mem] have g: "goodField decls vs ?fj" .
      from idToIndex_distinct [OF dist j pj] have sl: "slot decls ?fj = j"
        by (simp add: slot_def)
      have "\<not> emitted ?fj"
      proof
        assume "emitted ?fj"
        with mem have "?fj \<in> set ?fl" by simp
        then have "slot decls ?fj \<in> slot decls ` set ?fl" by (rule imageI)
        with sl False show False by simp
      qed
      from not_emitted_zero [OF g this] have "vs ! j = zero (snd (decls ! j))" by simp
      with r show ?thesis by simp
    qed
  qed
qed

lemma sorted_emitted_from_minus_one:
  assumes "list_all2 supportedField decls vs" "distinct (fieldIDs decls)"
  shows "sorted_wrt (<) (- 1 # map fid (filter emitted (sort_key fid (collectFields decls vs))))"
proof -
  from assms(1) have len: "length decls = length vs" by (rule list_all2_lengthD)
  from assms(2) have "distinct (map fid (collectFields decls vs))"
    by (simp add: map_fid_collectFields [OF len])
  from strictly_sorted_emitted [OF this]
  have s: "sorted_wrt (<) (map fid (filter emitted (sort_key fid (collectFields decls vs))))" .
  have "\<forall>x \<in> set (map fid (filter emitted (sort_key fid (collectFields decls vs)))). - 1 < x"
    using collectFields_fid [of _ decls vs] by fastforce
  with s show ?thesis by simp
qed


lemma struct_path_roundtrip:
  assumes sup: "list_all2 supportedField decls vs" and dist: "distinct (fieldIDs decls)"
    and fits: "fitsLength decls vs"
  shows "\<exists>bs. WriteStructTLV (encodeFields (sort_key fid (collectFields decls vs))) = Inr bs
           \<and> Unmarshal bs (TPtr (TStruct decls)) (VPtr (Some (zero (TStruct decls))))
               = Inr (VStruct vs)"
proof -
  let ?sorted = "sort_key fid (collectFields decls vs)"
  let ?zs = "map (\<lambda>(tag, t). zero t) decls"
  have good: "\<forall>fi \<in> set ?sorted. goodField decls vs fi"
    using collectFields_good [OF sup dist] by simp
  from encode_decode_loop [OF good sorted_emitted_from_minus_one [OF sup dist], of ?zs]
  obtain content where
    enc: "encodeFields ?sorted = Inr content"
    and lp: "structLoop decls (- 1) content ?zs
             = Inr (foldl (\<lambda>d fi. d[slot decls fi := fvalue fi]) ?zs (filter emitted ?sorted))"
    by blast
  from fits enc have len: "int (length content) \<le> MaxLen" by (simp add: fitsLength_def)
  have w: "WriteStructTLV (encodeFields ?sorted) = Inr (structTLV content)"
    by (simp add: enc WriteStructTLV_ok [OF len])
  have u: "Unmarshal (structTLV content) (TPtr (TStruct decls))
             (VPtr (Some (zero (TStruct decls)))) = Inr (VStruct vs)"
    by (simp add: Unmarshal_structTLV [OF len] lp struct_result [OF sup dist])
  from w u show ?thesis by blast
qed

lemma enum_path_roundtrip:
  assumes sup: "list_all2 supportedField decls vs" and dist: "distinct (fieldIDs decls)"
    and fits: "fitsLength decls vs"
    and allopt: "optCount (collectFields decls vs) = length (collectFields decls vs)"
    and one: "presentOpt (collectFields decls vs) = 1"
    and fnd: "find isPresent (collectFields decls vs) = Some fi"
  shows "\<exists>bs. WriteEnumTLV (word_of_int (fid fi)) (encodeValue (ftype fi) (fvalue fi)) = Inr bs
           \<and> Unmarshal bs (TPtr (TStruct decls)) (VPtr (Some (zero (TStruct decls))))
               = Inr (VStruct vs)"
proof -
  let ?flds = "collectFields decls vs"
  let ?sorted = "sort_key fid ?flds"
  let ?zs = "map (\<lambda>(tag, t). zero t) decls"
  let ?vid = "word_of_int (fid fi) :: byte"
  from sup have len: "length decls = length vs" by (rule list_all2_lengthD)
  from fnd have mem: "fi \<in> set ?flds" and pres: "isPresent fi"
    by (auto simp: find_Some_iff)
  from collectFields_good [OF sup dist mem] have g: "goodField decls vs fi" .
  from g have k: "0 \<le> fid fi" "fid fi < 0x80"
    and sl: "slot decls fi < length vs"
    and fv: "findVariantFrom 0 decls ?vid = Some (slot decls fi)"
    and t: "ftype fi = snd (decls ! slot decls fi)"
    and v: "fvalue fi = vs ! slot decls fi"
    by (simp_all add: goodField_def)
  from pres have ptr: "isPointer (ftype fi)" and nn: "\<not> IsNil (fvalue fi)"
    by (simp_all add: isPresent_def)
  from ptr have zp: "isZeroValue (ftype fi) (fvalue fi) = IsNil (fvalue fi)"
    by (cases "ftype fi") (simp_all add: isPointer_def)
  from nn zp have em: "emitted fi" by (simp add: emitted_def)
  from field_roundtrip [OF g em] obtain tlv where
    e: "encodeValue (ftype fi) (fvalue fi) = Inr tlv"
    and d: "\<And>f rest. decodeSlot (ftype fi) f (tlv @ rest) = Inr (fvalue fi, rest)"
    by blast
  have good: "\<forall>fi \<in> set ?sorted. goodField decls vs fi"
    using collectFields_good [OF sup dist] by simp
  from encode_decode_loop [OF good sorted_emitted_from_minus_one [OF sup dist], of ?zs]
  obtain content where enc: "encodeFields ?sorted = Inr content" by blast
  from fits enc have "int (length content) \<le> MaxLen" by (simp add: fitsLength_def)
  moreover from encodeFields_contains [OF enc _ em e] mem
  have "length tlv + 1 \<le> length content" by simp
  ultimately have tl: "int (length tlv) + 1 \<le> MaxLen" by linarith
  have w: "WriteEnumTLV ?vid (encodeValue (ftype fi) (fvalue fi))
             = Inr (0x12 # EncodeLen (int (length tlv) + 1) @ ?vid # tlv)"
    by (simp add: e WriteEnumTLV_ok [OF uint_fid [OF k] tl])
  from d [of "?zs ! slot decls fi" "[]"] ptr obtain x where
    dx: "Decode (ftype fi)
           (if IsNil (?zs ! slot decls fi) then VPtr (Some (zero (Elem (ftype fi))))
            else ?zs ! slot decls fi) tlv = Inr (x, [])"
    and xv: "VPtr (Some x) = fvalue fi"
    by (auto simp: decodeSlot_def split: sum.splits)
  have de: "decodeEnumInto decls ?zs (EncodeLen (int (length tlv) + 1) @ ?vid # tlv)
              = Inr (?zs[slot decls fi := VPtr (Some x)], [])"
    by (rule decodeEnumInto_frame [OF tl fv]) (use ptr [unfolded t] dx [unfolded t] in simp_all)
  have fin: "?zs[slot decls fi := fvalue fi] = vs"
  proof (rule nth_equalityI)
    show "length (?zs[slot decls fi := fvalue fi]) = length vs" by (simp add: len)
    fix j assume "j < length (?zs[slot decls fi := fvalue fi])"
    then have j: "j < length decls" by simp
    show "?zs[slot decls fi := fvalue fi] ! j = vs ! j"
    proof (cases "j = slot decls fi")
      case True
      with j v show ?thesis by simp
    next
      case False
      then have r: "?zs[slot decls fi := fvalue fi] ! j = zero (snd (decls ! j))"
        by (simp add: zero_fields_nth [OF j])
      from list_all2_nthD [OF sup j] have sf: "supportedField (decls ! j) (vs ! j)" .
      show ?thesis
      proof (cases "ParseRelishTag (fst (decls ! j))")
        case None
        with sf have "vs ! j = zero (snd (decls ! j))"
          by (cases "decls ! j") (simp add: supportedField_def)
        with r show ?thesis by simp
      next
        case (Some p)
        obtain i opt omit where p: "p = (i, opt, omit)" by (cases p)
        let ?fj = "\<lparr>fid = i, optional = opt, omitempty = omit, ftype = snd (decls ! j),
                     fvalue = vs ! j\<rparr>"
        from j len have jv: "j < length vs" by simp
        from Some p have pj: "ParseRelishTag (fst (decls ! j)) = Some (i, opt, omit)" by simp
        from collectFields_mem [OF j jv pj] have memj: "?fj \<in> set ?flds" .
        from collectFields_good [OF sup dist memj] have gj: "goodField decls vs ?fj" .
        from idToIndex_distinct [OF dist j pj] have slj: "slot decls ?fj = j"
          by (simp add: slot_def)
        from filter_all [OF allopt [unfolded optCount_def]] memj mem
        have oj: "optional ?fj" and oi: "optional fi" by blast+
        have np: "\<not> isPresent ?fj"
        proof
          assume pj': "isPresent ?fj"
          from one have l1: "length (filter (\<lambda>fi. optional fi \<and> isPresent fi) ?flds) = 1"
            by (simp add: presentOpt_def)
          have "?fj = fi"
            by (rule filter_single [OF l1 memj _ mem]) (use oj oi pj' pres in simp_all)
          with slj False show False by simp
        qed
        from goodField_shape [OF gj] oj obtain te where te: "snd (decls ! j) = TPtr te"
          by auto
        from np te have "IsNil (vs ! j)" by (simp add: isPresent_def isPointer_def)
        then have "vs ! j = zero (snd (decls ! j))" by (simp add: te IsNil_def)
        with r show ?thesis by simp
      qed
    qed
  qed
  have u: "Unmarshal (0x12 # EncodeLen (int (length tlv) + 1) @ ?vid # tlv)
             (TPtr (TStruct decls)) (VPtr (Some (zero (TStruct decls)))) = Inr (VStruct vs)"
    using fin by (simp add: Unmarshal_def Decode_enum de xv)
  from w u show ?thesis by blast
qed



text \<open>
  Claim C1, as stated, fails.  A struct whose string field holds the byte \<open>FF\<close> is
  well typed, but \<open>Marshal\<close> rejects it, because \<open>WriteStringTLV\<close> validates UTF-8.  And
  a struct with a field without a tag is encoded without that field, so a non-zero
  value in it does not come back.
\<close>

theorem marshal_roundtrip_counterexample:
  "Marshal (TStruct [(Tag 0 False False, TString)]) (VStruct [VString [0xFF]])
     = Inl (errors_New ''invalid utf-8'')
   \<and> Marshal (TStruct [(Tag 0 False False, TUint32), (NoTag, TString)])
        (VStruct [VUint32 42, VString [0x78]])
     = Inr [0x11, 0x0C, 0x00, 0x04, 0x2A, 0, 0, 0]
   \<and> Unmarshal [0x11, 0x0C, 0x00, 0x04, 0x2A, 0, 0, 0]
        (TPtr (TStruct [(Tag 0 False False, TUint32), (NoTag, TString)]))
        (VPtr (Some (zero (TStruct [(Tag 0 False False, TUint32), (NoTag, TString)]))))
     = Inr (VStruct [VUint32 42, VString []])"
  by (simp add: codec_eval)


text \<open>
  Claim C1, amended.  Take a struct whose tagged fields are bools, \<open>uint32\<close>s and
  strings, or, for the fields marked optional, pointers that are nil or point to such
  values; whose strings are valid UTF-8; whose tagged field IDs are pairwise distinct;
  whose fields without a usable tag hold the zero value; and whose staged field bytes
  fit the length range.  Then \<open>Marshal\<close> succeeds, and \<open>Unmarshal\<close> of its output into a
  zero value of the struct type succeeds and yields the struct.
\<close>

theorem marshal_roundtrip:
  assumes "list_all2 supportedField decls vs"
    and "distinct (fieldIDs decls)"
    and "fitsLength decls vs"
  shows "\<exists>bs. Marshal (TStruct decls) (VStruct vs) = Inr bs
           \<and> Unmarshal bs (TPtr (TStruct decls)) (VPtr (Some (zero (TStruct decls))))
               = Inr (VStruct vs)"
proof -
  let ?flds = "collectFields decls vs"
  note sp = struct_path_roundtrip [OF assms]
  have m: "Marshal (TStruct decls) (VStruct vs) = encodeStruct decls vs"
    by (simp add: Marshal_def encodeValue_struct)
  show ?thesis
  proof (cases "length ?flds > 0 \<and> optCount ?flds = length ?flds \<and> presentOpt ?flds = 1")
    case False
    then have "encodeStruct decls vs = WriteStructTLV (encodeFields (sort_key fid ?flds))"
      unfolding encodeStruct.simps Let_def by (simp only: if_False)
    with sp m show ?thesis by simp
  next
    case True
    show ?thesis
    proof (cases "find isPresent ?flds")
      case None
      with True have "encodeStruct decls vs = WriteStructTLV (encodeFields (sort_key fid ?flds))"
        by (simp add: encodeStruct.simps Let_def)
      with sp m show ?thesis by simp
    next
      case (Some fi)
      with True have "encodeStruct decls vs
          = WriteEnumTLV (word_of_int (fid fi)) (encodeValue (ftype fi) (fvalue fi))"
        by (simp add: encodeStruct.simps Let_def)
      with enum_path_roundtrip [OF assms _ _ Some] True m show ?thesis by simp
    qed
  qed
qed

theorem marshal_roundtrip_witness:
  "Marshal (TStruct [(Tag 0 False False, TUint32), (Tag 1 False False, TString),
                     (Tag 5 False False, TBool)])
           (VStruct [VUint32 42, VString [0x68, 0x65, 0x6C, 0x6C, 0x6F], VBool True])
     = Inr [0x11, 0x22, 0x00, 0x04, 0x2A, 0, 0, 0,
            0x01, 0x0E, 0x0A, 0x68, 0x65, 0x6C, 0x6C, 0x6F, 0x05, 0x01, 0xFF]
   \<and> Unmarshal [0x11, 0x22, 0x00, 0x04, 0x2A, 0, 0, 0,
                0x01, 0x0E, 0x0A, 0x68, 0x65, 0x6C, 0x6C, 0x6F, 0x05, 0x01, 0xFF]
        (TPtr (TStruct [(Tag 0 False False, TUint32), (Tag 1 False False, TString),
                        (Tag 5 False False, TBool)]))
        (VPtr (Some (zero (TStruct [(Tag 0 False False, TUint32), (Tag 1 False False, TString),
                                    (Tag 5 False False, TBool)]))))
     = Inr (VStruct [VUint32 42, VString [0x68, 0x65, 0x6C, 0x6C, 0x6F], VBool True])
   \<and> Marshal (TStruct [(Tag 0 True False, TPtr TUint32), (Tag 1 True False, TPtr TString)])
           (VStruct [VPtr None, VPtr (Some (VString [0x68, 0x69]))])
     = Inr [0x12, 0x0A, 0x01, 0x0E, 0x04, 0x68, 0x69]
   \<and> Unmarshal [0x12, 0x0A, 0x01, 0x0E, 0x04, 0x68, 0x69]
        (TPtr (TStruct [(Tag 0 True False, TPtr TUint32), (Tag 1 True False, TPtr TString)]))
        (VPtr (Some (zero (TStruct [(Tag 0 True False, TPtr TUint32),
                                    (Tag 1 True False, TPtr TString)]))))
     = Inr (VStruct [VPtr None, VPtr (Some (VString [0x68, 0x69]))])"
proof -
  let ?d1 = "[(Tag 0 False False, TUint32), (Tag 1 False False, TString),
              (Tag 5 False False, TBool)]"
  let ?v1 = "[VUint32 42, VString [0x68, 0x65, 0x6C, 0x6C, 0x6F], VBool True]"
  let ?b1 = "[0x11, 0x22, 0x00, 0x04, 0x2A, 0, 0, 0,
              0x01, 0x0E, 0x0A, 0x68, 0x65, 0x6C, 0x6C, 0x6F, 0x05, 0x01, 0xFF] :: bytes"
  let ?d2 = "[(Tag 0 True False, TPtr TUint32), (Tag 1 True False, TPtr TString)]"
  let ?v2 = "[VPtr None, VPtr (Some (VString [0x68, 0x69]))]"
  let ?b2 = "[0x12, 0x0A, 0x01, 0x0E, 0x04, 0x68, 0x69] :: bytes"
  have s1: "list_all2 supportedField ?d1 ?v1"
    by (simp add: supportedField_def supportedValue_def MaxLen_def utf8_first_def)
  have i1: "distinct (fieldIDs ?d1)" by simp
  have f1: "fitsLength ?d1 ?v1" by (simp add: fitsLength_def codec_eval)
  have m1: "Marshal (TStruct ?d1) (VStruct ?v1) = Inr ?b1" by (simp add: codec_eval)
  from marshal_roundtrip [OF s1 i1 f1] m1
  have u1: "Unmarshal ?b1 (TPtr (TStruct ?d1)) (VPtr (Some (zero (TStruct ?d1))))
              = Inr (VStruct ?v1)" by auto
  have s2: "list_all2 supportedField ?d2 ?v2"
    by (simp add: supportedField_def supportedValue_def MaxLen_def utf8_first_def)
  have i2: "distinct (fieldIDs ?d2)" by simp
  have f2: "fitsLength ?d2 ?v2" by (simp add: fitsLength_def codec_eval)
  have m2: "Marshal (TStruct ?d2) (VStruct ?v2) = Inr ?b2" by (simp add: codec_eval)
  from marshal_roundtrip [OF s2 i2 f2] m2
  have u2: "Unmarshal ?b2 (TPtr (TStruct ?d2)) (VPtr (Some (zero (TStruct ?d2))))
              = Inr (VStruct ?v2)" by auto
  from m1 u1 m2 u2 show ?thesis by blast
qed

end
